theory Spec2Isabelle
  imports Main
begin

section \<open>torrent\_mover: a shallow embedding of \<^verbatim>\<open>torrent_mover.py\<close>\<close>

text \<open>
  The script classifies the video files of a finished torrent (movie, movie with sample,
  episode, season, series), copies them into a film or series tree and asks the
  Transmission client to remove the torrents it has handled.

  Conventions of the embedding.
  \<^item> A Python \<^verbatim>\<open>str\<close> is a \<^typ>\<open>string\<close>. An Isabelle character has eight bits, so the
    model covers file names whose code points are below 256. On these the regular
    expression classes of the script are exact: \<^verbatim>\<open>\d\<close> is \<^verbatim>\<open>[0-9]\<close>, and under
    \<^verbatim>\<open>re.IGNORECASE\<close> an ASCII letter of a pattern matches its two ASCII cases only.
  \<^item> A Python \<^verbatim>\<open>int\<close> is an \<^typ>\<open>int\<close>; the \<^verbatim>\<open>float\<close> that \<^verbatim>\<open>is_movie_with_sample\<close>
    computes is an IEEE 754 binary64 value, modelled below with its rounding.
  \<^item> An exception is a value of \<open>py_error\<close>; a function that can raise returns
    \<open>py_error + 'a\<close>.
  \<^item> The module-level settings that \<^verbatim>\<open>load_config\<close> may overwrite, and \<^verbatim>\<open>DRY_RUN\<close>, are the
    fields of the record \<open>config\<close> that the functions take as their first argument.
\<close>

subsection \<open>Settings, enumerations and records\<close>

datatype py_error =
    TypeError | KeyError | IndexError | ZeroDivisionError | OverflowError | OSError | TransmissionError

record config =
  DIR_DOWNLOAD :: string
  DIR_FILM :: string
  DIR_SERIES :: string
  SEASON_PREFIX :: string
  STRIP_CHARS :: string
  DRY_RUN :: bool

datatype TorrentStatus =
    CHECK_PENDING | CHECKING | DOWNLOADING | DOWNLOAD_PENDING | SEEDING | SEED_PENDING | STOPPED

fun status_value :: "TorrentStatus \<Rightarrow> string" where
  "status_value CHECK_PENDING = ''check pending''"
| "status_value CHECKING = ''checking''"
| "status_value DOWNLOADING = ''downloading''"
| "status_value DOWNLOAD_PENDING = ''download pending''"
| "status_value SEEDING = ''seeding''"
| "status_value SEED_PENDING = ''seed pending''"
| "status_value STOPPED = ''stopped''"

datatype TorrentType = UNKNOWN | MOVIE | MOVIE_WITH_SAMPLE | EPISODE | SEASON | SERIES

definition TORRENT_COMPLETE_STATUS :: "string list" where
  "TORRENT_COMPLETE_STATUS = [status_value SEEDING, status_value STOPPED]"

definition VIDEO_FILE_EXTENSIONS :: "string list" where
  "VIDEO_FILE_EXTENSIONS = [''.mp4'', ''.mkv'', ''.avi'']"

text \<open>A file entry of a torrent, as \<^verbatim>\<open>torrent.files()\<close> reports it.\<close>

record file_info =
  name :: string
  size' :: int

subsection \<open>Strings and paths\<close>

text \<open>\<^verbatim>\<open>os.path.basename\<close> (posixpath): what follows the last slash.\<close>

definition basename :: "string \<Rightarrow> string" where
  "basename p = rev (takeWhile (\<lambda>c. c \<noteq> CHR ''/'') (rev p))"

text \<open>\<^verbatim>\<open>str.strip(chars)\<close>: drop the leading and the trailing characters that occur in \<open>chars\<close>.\<close>

definition lstrip :: "string \<Rightarrow> string \<Rightarrow> string" where
  "lstrip chars s = dropWhile (\<lambda>c. c \<in> set chars) s"

definition strip :: "string \<Rightarrow> string \<Rightarrow> string" where
  "strip chars s = rev (lstrip chars (rev (lstrip chars s)))"

text \<open>
  \<^verbatim>\<open>os.path.join\<close> (posixpath) of two components; the script's call with three is
  \<open>path_join (path_join a b) c\<close>, as the library's loop computes it.
\<close>

definition path_join :: "string \<Rightarrow> string \<Rightarrow> string" where
  "path_join path b =
     (if b \<noteq> [] \<and> hd b = CHR ''/'' then b
      else if path = [] \<or> last path = CHR ''/'' then path @ b
      else path @ ''/'' @ b)"

text \<open>
  \<^verbatim>\<open>os.path.splitext(p)[1]\<close>: the extension starts at the last dot of the base name, and is
  empty when that dot has only dots before it.
\<close>

definition splitext_ext :: "string \<Rightarrow> string" where
  "splitext_ext p =
     (let b = basename p in
      if CHR ''.'' \<in> set b then
        (let ext = CHR ''.'' # rev (takeWhile (\<lambda>c. c \<noteq> CHR ''.'') (rev b));
             stem = rev (tl (dropWhile (\<lambda>c. c \<noteq> CHR ''.'') (rev b)))
         in if list_ex (\<lambda>c. c \<noteq> CHR ''.'') stem then ext else [])
      else [])"

definition get_video_files :: "file_info list \<Rightarrow> file_info list" where
  "get_video_files fs = filter (\<lambda>file_info. splitext_ext (name file_info) \<in> set VIDEO_FILE_EXTENSIONS) fs"

text \<open>
  \<^verbatim>\<open>int(s)\<close> on a string of ASCII digits, and the format \<^verbatim>\<open>f"{n:02d}"\<close> of a number that is
  not negative: its decimal digits, padded with zeros on the left to two characters.
\<close>

definition is_digit :: "char \<Rightarrow> bool" where
  "is_digit c = (c \<in> set ''0123456789'')"

definition digit_value :: "char \<Rightarrow> nat" where
  "digit_value c = of_char c - 48"

definition digit_char :: "nat \<Rightarrow> char" where
  "digit_char d = ''0123456789'' ! d"

definition int_of_digits :: "string \<Rightarrow> nat" where
  "int_of_digits s = foldl (\<lambda>acc c. 10 * acc + digit_value c) 0 s"

fun decimal :: "nat \<Rightarrow> string" where
  "decimal n = (if n < 10 then [digit_char n] else decimal (n div 10) @ [digit_char (n mod 10)])"

declare decimal.simps [simp del]

definition format_02d :: "nat \<Rightarrow> string" where
  "format_02d n = (let s = decimal n in replicate (2 - length s) (CHR ''0'') @ s)"

subsection \<open>The regular expressions of \<^verbatim>\<open>SERIES_PATTERNS\<close>\<close>

text \<open>
  Every element of the three patterns is one character class under a quantifier, captured
  or not: \<^verbatim>\<open>(.*?)\<close>, \<^verbatim>\<open>S\<close>, \<^verbatim>\<open>(\d{1,2})\<close>, \<^verbatim>\<open>\[?\<close>, \<^verbatim>\<open>.?\<close>, \<^verbatim>\<open>.*?\<close>, \<^verbatim>\<open>(.*)\<close>. A pattern is
  the list of its elements.
\<close>

datatype atom = AnyChar | Digit | Lit char

datatype item = Item (atom_of: atom) (lo: nat) (hi: "nat option") (greedy: bool) (capture: bool)

definition lower :: "char \<Rightarrow> char" where
  "lower c = (case map_of (zip ''ABCDEFGHIJKLMNOPQRSTUVWXYZ'' ''abcdefghijklmnopqrstuvwxyz'') c of
                Some l \<Rightarrow> l | None \<Rightarrow> c)"

text \<open>The dot matches every character but the newline; a literal matches in either case.\<close>

fun atom_matches :: "atom \<Rightarrow> char \<Rightarrow> bool" where
  "atom_matches AnyChar c = (c \<noteq> CHR 0x0A)"
| "atom_matches Digit c = is_digit c"
| "atom_matches (Lit l) c = (lower c = lower l)"

text \<open>
  The numbers of characters an element may take at the head of \<open>s\<close>, in the order in which
  the backtracking matcher tries them: a greedy quantifier takes as many as it can first, a
  lazy one as few.
\<close>

definition counts :: "item \<Rightarrow> string \<Rightarrow> nat list" where
  "counts it s =
     (let avail = length (takeWhile (atom_matches (atom_of it)) s);
          top = (case hi it of None \<Rightarrow> avail | Some h \<Rightarrow> min h avail);
          up = [lo it ..< Suc top]
      in if greedy it then rev up else up)"

fun first_success :: "(nat \<Rightarrow> 'a option) \<Rightarrow> nat list \<Rightarrow> 'a option" where
  "first_success f [] = None"
| "first_success f (n # ns) = (case f n of Some r \<Rightarrow> Some r | None \<Rightarrow> first_success f ns)"

text \<open>
  \<open>match_here p s\<close> matches the pattern at the head of \<open>s\<close> and returns the captured groups
  of the first match in backtracking order.
\<close>

fun match_here :: "item list \<Rightarrow> string \<Rightarrow> string list option" where
  "match_here [] s = Some []"
| "match_here (it # its) s =
     first_success
       (\<lambda>n. case match_here its (drop n s) of
               None \<Rightarrow> None
             | Some groups \<Rightarrow> Some (if capture it then take n s # groups else groups))
       (counts it s)"

text \<open>\<^verbatim>\<open>pattern.search\<close>: the match at the leftmost position of the string that has one.\<close>

fun search :: "item list \<Rightarrow> string \<Rightarrow> string list option" where
  "search p [] = match_here p []"
| "search p (c # s) = (case match_here p (c # s) of Some groups \<Rightarrow> Some groups | None \<Rightarrow> search p s)"

definition lit :: "char \<Rightarrow> item" where
  "lit c = Item (Lit c) 1 (Some 1) True False"

definition opt_lit :: "char \<Rightarrow> item" where
  "opt_lit c = Item (Lit c) 0 (Some 1) True False"

definition opt_any :: item where
  "opt_any = Item AnyChar 0 (Some 1) True False"

definition lazy_any :: item where
  "lazy_any = Item AnyChar 0 None False False"

definition group_lazy_any :: item where
  "group_lazy_any = Item AnyChar 0 None False True"

definition group_any :: item where
  "group_any = Item AnyChar 0 None True True"

definition group_digits :: "nat \<Rightarrow> nat \<Rightarrow> item" where
  "group_digits m n = Item Digit m (Some n) True True"

text \<open>\<^verbatim>\<open>(.*?)S(\d{1,2})E(\d{2})(.*)\<close>\<close>

definition pattern_SxxEyy :: "item list" where
  "pattern_SxxEyy =
     [group_lazy_any, lit (CHR ''S''), group_digits 1 2, lit (CHR ''E''), group_digits 2 2, group_any]"

text \<open>\<^verbatim>\<open>(.*?)\[?(\d{1,2})x(\d{2})\]?(.*)\<close>\<close>

definition pattern_NxNN :: "item list" where
  "pattern_NxNN =
     [group_lazy_any, opt_lit (CHR ''[''), group_digits 1 2, lit (CHR ''x''), group_digits 2 2,
      opt_lit (CHR '']''), group_any]"

text \<open>\<^verbatim>\<open>(.*?)Season.?(\d{1,2}).*?Episode.?(\d{1,2})(.*)\<close>\<close>

definition pattern_Season_Episode :: "item list" where
  "pattern_Season_Episode =
     [group_lazy_any] @ map lit ''Season'' @ [opt_any, group_digits 1 2, lazy_any]
       @ map lit ''Episode'' @ [opt_any, group_digits 1 2, group_any]"

definition SERIES_PATTERNS :: "item list list" where
  "SERIES_PATTERNS = [pattern_SxxEyy, pattern_NxNN, pattern_Season_Episode]"

subsection \<open>\<^verbatim>\<open>get_episode_data\<close>\<close>

record episode =
  series_name :: string
  season_num :: string
  episode_num :: string
  filename :: string

text \<open>
  The loop over the patterns; \<open>None\<close> is the \<^verbatim>\<open>False\<close> the function returns when no pattern
  matches. \<^verbatim>\<open>match.group(k)\<close> is the element \<open>k - 1\<close> of the list of groups.
\<close>

fun episode_of_patterns :: "config \<Rightarrow> item list list \<Rightarrow> string \<Rightarrow> episode option" where
  "episode_of_patterns cfg [] fn = None"
| "episode_of_patterns cfg (pattern # patterns) fn =
     (case search pattern (basename fn) of
        Some groups \<Rightarrow>
          Some \<lparr>series_name = strip (STRIP_CHARS cfg) (groups ! 0),
                season_num = format_02d (int_of_digits (groups ! 1)),
                episode_num = format_02d (int_of_digits (groups ! 2)),
                filename = fn\<rparr>
      | None \<Rightarrow> episode_of_patterns cfg patterns fn)"

definition get_episode_data :: "config \<Rightarrow> string \<Rightarrow> episode option" where
  "get_episode_data cfg fn = episode_of_patterns cfg SERIES_PATTERNS fn"

subsection \<open>Binary64 arithmetic\<close>

text \<open>
  \<^verbatim>\<open>is_movie_with_sample\<close> divides two integers, which in Python gives a \<^verbatim>\<open>float\<close>: the
  quotient rounded to the nearest binary64 number, ties to even. A finite float is written
  \<open>Float m u\<close> and stands for \<open>m * 2 ^ u\<close>. All the arithmetic is on integers. The sign of a
  zero is not kept: the script only compares its floats, and \<^verbatim>\<open>-0.0\<close> compares as \<^verbatim>\<open>0.0\<close>.
\<close>

datatype pyfloat = Float int int | PosInf | NegInf

function bit_length :: "int \<Rightarrow> nat" where
  "bit_length n = (if n \<le> 0 then 0 else Suc (bit_length (n div 2)))"
  by pat_completeness auto
termination
  by (relation "measure nat") auto

declare bit_length.simps [simp del]

text \<open>The integer nearest to \<open>n / d\<close> for \<open>0 < d\<close>, the even one of two that are equally near.\<close>

definition round_half_even :: "int \<Rightarrow> int \<Rightarrow> int" where
  "round_half_even n d =
     (let q = n div d; r = n mod d
      in if 2 * r < d then q else if d < 2 * r then q + 1 else if even q then q else q + 1)"

text \<open>The integer \<open>e\<close> with \<open>2 ^ e \<le> n / d < 2 ^ (e + 1)\<close>, for \<open>0 < n\<close> and \<open>0 < d\<close>.\<close>

definition floor_log2 :: "int \<Rightarrow> int \<Rightarrow> int" where
  "floor_log2 n d =
     (let e = int (bit_length n) - int (bit_length d)
      in if (if 0 \<le> e then d * 2 ^ nat e \<le> n else d \<le> n * 2 ^ nat (- e)) then e else e - 1)"

text \<open>
  Rounding \<open>n / d\<close> (both positive) to binary64: 53 bits of mantissa, the exponent of the last
  bit not below \<open>-1074\<close> (subnormal numbers), infinity from \<open>2 ^ 1024 - 2 ^ 970\<close> on.
\<close>

definition double_pos :: "int \<Rightarrow> int \<Rightarrow> pyfloat" where
  "double_pos n d =
     (let e = floor_log2 n d;
          u = max e (- 1022) - 52;
          m = (if 0 \<le> u then round_half_even n (d * 2 ^ nat u)
               else round_half_even (n * 2 ^ nat (- u)) d)
      in if 1024 \<le> e \<or> (u = 971 \<and> m = 2 ^ 53) then PosInf else Float m u)"

fun float_neg :: "pyfloat \<Rightarrow> pyfloat" where
  "float_neg (Float m u) = Float (- m) u"
| "float_neg PosInf = NegInf"
| "float_neg NegInf = PosInf"

definition double_of_ratio :: "int \<Rightarrow> int \<Rightarrow> pyfloat" where
  "double_of_ratio n d =
     (if n = 0 then Float 0 0
      else if n < 0 then float_neg (double_pos (- n) d)
      else double_pos n d)"

text \<open>
  \<^verbatim>\<open>a / b\<close> on two \<^verbatim>\<open>int\<close>s: \<^verbatim>\<open>ZeroDivisionError\<close> for a zero divisor, \<^verbatim>\<open>OverflowError\<close> when the
  quotient is too large for a float, the correctly rounded quotient otherwise.
\<close>

definition int_truediv :: "int \<Rightarrow> int \<Rightarrow> py_error + pyfloat" where
  "int_truediv a b =
     (if b = 0 then Inl ZeroDivisionError
      else (case double_of_ratio (if b < 0 then - a else a) \<bar>b\<bar> of
              Float m u \<Rightarrow> Inr (Float m u)
            | PosInf \<Rightarrow> Inl OverflowError
            | NegInf \<Rightarrow> Inl OverflowError))"

text \<open>
  \<^verbatim>\<open>x * c\<close> and \<^verbatim>\<open>x / c\<close> for a float \<open>x\<close> and a positive integer constant \<open>c\<close> that is a float
  itself (the script has \<open>100\<close> and \<open>10\<close>): the exact result, rounded; an overflow gives an
  infinity, not an exception.
\<close>

fun float_mul :: "pyfloat \<Rightarrow> int \<Rightarrow> pyfloat" where
  "float_mul (Float m u) c =
     (if 0 \<le> u then double_of_ratio (m * c * 2 ^ nat u) 1 else double_of_ratio (m * c) (2 ^ nat (- u)))"
| "float_mul PosInf c = PosInf"
| "float_mul NegInf c = NegInf"

fun float_div :: "pyfloat \<Rightarrow> int \<Rightarrow> pyfloat" where
  "float_div (Float m u) c =
     (if 0 \<le> u then double_of_ratio (m * 2 ^ nat u) c else double_of_ratio m (c * 2 ^ nat (- u)))"
| "float_div PosInf c = PosInf"
| "float_div NegInf c = NegInf"

text \<open>Comparisons of a float with an integer; Python compares the two exactly.\<close>

fun float_lt :: "pyfloat \<Rightarrow> int \<Rightarrow> bool" where
  "float_lt (Float m u) c = (if 0 \<le> u then m * 2 ^ nat u < c else m < c * 2 ^ nat (- u))"
| "float_lt PosInf c = False"
| "float_lt NegInf c = True"

fun float_gt :: "pyfloat \<Rightarrow> int \<Rightarrow> bool" where
  "float_gt (Float m u) c = (if 0 \<le> u then c < m * 2 ^ nat u else c * 2 ^ nat (- u) < m)"
| "float_gt PosInf c = True"
| "float_gt NegInf c = False"

definition float_ge :: "pyfloat \<Rightarrow> int \<Rightarrow> bool" where
  "float_ge x c = (\<not> float_lt x c)"

definition float_eq :: "pyfloat \<Rightarrow> int \<Rightarrow> bool" where
  "float_eq x c = (\<not> float_lt x c \<and> \<not> float_gt x c)"

subsection \<open>The classifier\<close>

text \<open>
  \<^verbatim>\<open>get_series_data\<close>. The dictionary \<^verbatim>\<open>seasons\<close> keeps its keys in the order of their first
  insertion, so it is a list of pairs. \<open>add_episode\<close> is the two statements
  \<^verbatim>\<open>if not season_num_str in seasons: seasons[season_num_str] = []\<close> and
  \<^verbatim>\<open>seasons[season_num_str].append(episode_data)\<close>.
\<close>

type_synonym seasons_dict = "(string \<times> episode list) list"

fun add_episode :: "seasons_dict \<Rightarrow> string \<Rightarrow> episode \<Rightarrow> seasons_dict" where
  "add_episode [] k e = [(k, [e])]"
| "add_episode ((k', es) # rest) k e =
     (if k' = k then (k', es @ [e]) # rest else (k', es) # add_episode rest k e)"

record series =
  series_name' :: "string option"
  seasons :: seasons_dict
  seasons_count :: nat

text \<open>
  The loop of \<^verbatim>\<open>get_series_data\<close> with its two variables. \<^verbatim>\<open>get_episode_data\<close> returns \<^verbatim>\<open>False\<close>
  for a name that no pattern matches, and the loop subscripts what it returns in either
  branch of its test: \<^verbatim>\<open>False['series_name']\<close> raises \<^verbatim>\<open>TypeError\<close>. \<open>Inr None\<close> is the
  \<^verbatim>\<open>return False\<close> on a second series name.
\<close>

fun series_loop ::
  "config \<Rightarrow> file_info list \<Rightarrow> string option \<Rightarrow> seasons_dict
    \<Rightarrow> py_error + (string option \<times> seasons_dict) option" where
  "series_loop cfg [] sname ss = Inr (Some (sname, ss))"
| "series_loop cfg (video_file # rest) sname ss =
     (case get_episode_data cfg (name video_file) of
        None \<Rightarrow> Inl TypeError
      | Some episode_data \<Rightarrow>
          (case sname of
             None \<Rightarrow>
               series_loop cfg rest (Some (series_name episode_data))
                 (add_episode ss (season_num episode_data) episode_data)
           | Some n \<Rightarrow>
               if series_name episode_data \<noteq> n then Inr None
               else series_loop cfg rest sname
                      (add_episode ss (season_num episode_data) episode_data)))"

definition get_series_data :: "config \<Rightarrow> file_info list \<Rightarrow> py_error + series option" where
  "get_series_data cfg video_files =
     (case series_loop cfg video_files None [] of
        Inl err \<Rightarrow> Inl err
      | Inr None \<Rightarrow> Inr None
      | Inr (Some (sname, ss)) \<Rightarrow>
          if length ss \<noteq> 0
          then Inr (Some \<lparr>series_name' = sname, seasons = ss, seasons_count = length ss\<rparr>)
          else Inr None)"

text \<open>\<^verbatim>\<open>is_movie_with_sample\<close>, with the float arithmetic of its line 176 and the tests after it.\<close>

definition is_movie_with_sample :: "file_info list \<Rightarrow> py_error + bool" where
  "is_movie_with_sample video_files =
     (if length video_files = 2 then
        (case int_truediv (size' (video_files ! 1) - size' (video_files ! 0)) (size' (video_files ! 0)) of
           Inl err \<Rightarrow> Inl err
         | Inr ratio \<Rightarrow>
             (let size_diff = float_mul ratio 100;
                  size_diff = (if float_lt size_diff 0 then float_neg size_diff
                               else if float_gt size_diff 100 then float_div size_diff 10
                               else size_diff)
              in if float_ge size_diff 90 then Inr True else Inr False))
      else Inr False)"

text \<open>The second component of what \<^verbatim>\<open>get_torrent_type\<close> returns: a dictionary or \<^verbatim>\<open>None\<close>.\<close>

datatype type_data = NoData | EpisodeData episode | SeriesData series

definition get_torrent_type :: "config \<Rightarrow> file_info list \<Rightarrow> py_error + TorrentType \<times> type_data" where
  "get_torrent_type cfg video_files =
     (if length video_files = 1 then
        (case get_episode_data cfg (name (video_files ! 0)) of
           Some episode_data \<Rightarrow> Inr (EPISODE, EpisodeData episode_data)
         | None \<Rightarrow> Inr (MOVIE, NoData))
      else
        (case is_movie_with_sample video_files of
           Inl err \<Rightarrow> Inl err
         | Inr True \<Rightarrow> Inr (MOVIE_WITH_SAMPLE, NoData)
         | Inr False \<Rightarrow>
             (case get_series_data cfg video_files of
                Inl err \<Rightarrow> Inl err
              | Inr (Some series_data) \<Rightarrow>
                  if seasons_count series_data = 1 then Inr (SEASON, SeriesData series_data)
                  else Inr (SERIES, SeriesData series_data)
              | Inr None \<Rightarrow> Inr (UNKNOWN, NoData))))"

subsection \<open>The file system, the client and the log\<close>

text \<open>
  The file system and the Transmission client are collaborators of the script. Their state
  is a value of an arbitrary type \<open>'w\<close>, and their operations are the fields of a record:
  whether a path exists, and the three calls that change something, each returning whether
  it succeeded (\<open>False\<close>: it raised) and the state it leaves. Every theorem below holds for
  every such record.

  Beside that state the model keeps a trace: one event for each call of a changing
  operation, and one for each line the script logs at level INFO or above (the level
  \<^verbatim>\<open>basicConfig\<close> sets, \<^verbatim>\<open>DEBUG\<close> being \<^verbatim>\<open>False\<close>) in \<^verbatim>\<open>is_dry_run\<close>, \<^verbatim>\<open>move_torrent_file\<close> and
  \<^verbatim>\<open>main\<close>. The classifier is modelled as a function, without the one line it logs, and
  \<^verbatim>\<open>print(TRANS_HOST)\<close> is left out.
\<close>

record 'w ops =
  path_exists :: "'w \<Rightarrow> string \<Rightarrow> bool"
  makedirs :: "'w \<Rightarrow> string \<Rightarrow> bool \<times> 'w"
  copyfile :: "'w \<Rightarrow> string \<Rightarrow> string \<Rightarrow> bool \<times> 'w"
  remove_torrent :: "'w \<Rightarrow> int list \<Rightarrow> bool \<times> 'w"

datatype message =
    Connecting
  | Could_not_connect
  | Checking int string
  | Torrent_type TorrentType
  | Skipping_due_to_dry_run
  | Moving string string
  | Already_exists string
  | Error_moving string
  | Torrent_is_finished
  | Removing_finished_torrents
  | Done

datatype event = Log message | MakeDirs string | CopyFile string string | RemoveTorrent "int list"

record 'w state =
  world :: 'w
  trace :: "event list"

definition emit :: "event \<Rightarrow> 'w state \<Rightarrow> 'w state" where
  "emit e st = st\<lparr>trace := trace st @ [e]\<rparr>"

definition is_dry_run :: "config \<Rightarrow> 'w state \<Rightarrow> bool \<times> 'w state" where
  "is_dry_run cfg st =
     (if DRY_RUN cfg then (True, emit (Log Skipping_due_to_dry_run) st) else (False, st))"

subsection \<open>\<^verbatim>\<open>get_season_dir\<close> and \<^verbatim>\<open>move_torrent_file\<close>\<close>

text \<open>\<^verbatim>\<open>os.makedirs\<close> is called outside any \<^verbatim>\<open>try\<close>: when it raises, so does \<^verbatim>\<open>get_season_dir\<close>.\<close>

definition get_season_dir ::
  "config \<Rightarrow> 'w ops \<Rightarrow> string \<Rightarrow> string \<Rightarrow> 'w state \<Rightarrow> (py_error + string) \<times> 'w state" where
  "get_season_dir cfg ops sname snum st =
     (let season_dir = path_join (path_join (DIR_SERIES cfg) sname) (SEASON_PREFIX cfg @ snum) in
      if \<not> path_exists ops (world st) season_dir then
        (case is_dry_run cfg st of
           (True, st1) \<Rightarrow> (Inr season_dir, st1)
         | (False, st1) \<Rightarrow>
             (case makedirs ops (world st1) season_dir of
                (ok, w) \<Rightarrow>
                  (let st2 = emit (MakeDirs season_dir) (st1\<lparr>world := w\<rparr>)
                   in if ok then (Inr season_dir, st2) else (Inl OSError, st2))))
      else (Inr season_dir, st))"

text \<open>The bare \<^verbatim>\<open>except\<close> turns a failing \<^verbatim>\<open>copyfile\<close> into the result \<^verbatim>\<open>False\<close>.\<close>

definition move_torrent_file ::
  "config \<Rightarrow> 'w ops \<Rightarrow> string \<Rightarrow> string \<Rightarrow> 'w state \<Rightarrow> bool \<times> 'w state" where
  "move_torrent_file cfg ops source_file target_dir st =
     (let target = path_join target_dir (basename source_file) in
      if \<not> path_exists ops (world st) target then
        (let source = path_join (DIR_DOWNLOAD cfg) source_file;
             st1 = emit (Log (Moving source target)) st
         in case is_dry_run cfg st1 of
              (True, st2) \<Rightarrow> (True, st2)
            | (False, st2) \<Rightarrow>
                (case copyfile ops (world st2) source target of
                   (ok, w) \<Rightarrow>
                     (let st3 = emit (CopyFile source target) (st2\<lparr>world := w\<rparr>)
                      in if ok then (True, st3)
                         else (False, emit (Log (Error_moving target)) st3))))
      else (True, emit (Log (Already_exists target)) st))"

subsection \<open>\<^verbatim>\<open>main\<close>\<close>

text \<open>
  The two nested loops of lines 263 to 271. The inner one returns the variable \<^verbatim>\<open>moved\<close> and
  whether it left by \<^verbatim>\<open>break\<close>; the \<^verbatim>\<open>else: continue\<close> and \<^verbatim>\<open>break\<close> that follow it make the
  outer loop stop exactly then.
\<close>

fun move_episodes ::
  "config \<Rightarrow> 'w ops \<Rightarrow> episode list \<Rightarrow> bool \<Rightarrow> 'w state \<Rightarrow> (py_error + bool \<times> bool) \<times> 'w state" where
  "move_episodes cfg ops [] moved st = (Inr (moved, False), st)"
| "move_episodes cfg ops (ep # eps) moved st =
     (case get_season_dir cfg ops (series_name ep) (season_num ep) st of
        (Inl err, st1) \<Rightarrow> (Inl err, st1)
      | (Inr season_dir, st1) \<Rightarrow>
          (case move_torrent_file cfg ops (filename ep) season_dir st1 of
             (moved1, st2) \<Rightarrow>
               if moved1 = False then (Inr (moved1, True), st2)
               else move_episodes cfg ops eps moved1 st2))"

fun move_seasons ::
  "config \<Rightarrow> 'w ops \<Rightarrow> seasons_dict \<Rightarrow> bool \<Rightarrow> 'w state \<Rightarrow> (py_error + bool) \<times> 'w state" where
  "move_seasons cfg ops [] moved st = (Inr moved, st)"
| "move_seasons cfg ops ((season, eps) # rest) moved st =
     (case move_episodes cfg ops eps moved st of
        (Inl err, st1) \<Rightarrow> (Inl err, st1)
      | (Inr (moved1, broke), st1) \<Rightarrow>
          if broke then (Inr moved1, st1) else move_seasons cfg ops rest moved1 st1)"

text \<open>
  The chain of tests on \<^verbatim>\<open>torrent_type\<close>, lines 251 to 271, as a function of the type, its data
  and the video files; it returns \<^verbatim>\<open>moved\<close>, which line 242 has set to \<^verbatim>\<open>False\<close>. The branches
  for a type whose data or files are not what \<^verbatim>\<open>get_torrent_type\<close> returns with it are the
  Python errors of the subscripts.
\<close>

definition move_series ::
  "config \<Rightarrow> 'w ops \<Rightarrow> type_data \<Rightarrow> 'w state \<Rightarrow> (py_error + bool) \<times> 'w state" where
  "move_series cfg ops td st =
     (case td of
        SeriesData series_data \<Rightarrow> move_seasons cfg ops (seasons series_data) False st
      | EpisodeData episode_data \<Rightarrow> (Inl KeyError, st)
      | NoData \<Rightarrow> (Inl TypeError, st))"

definition relocate ::
  "config \<Rightarrow> 'w ops \<Rightarrow> TorrentType \<Rightarrow> type_data \<Rightarrow> file_info list \<Rightarrow> 'w state
    \<Rightarrow> (py_error + bool) \<times> 'w state" where
  "relocate cfg ops torrent_type td video_files st =
     (case torrent_type of
        MOVIE \<Rightarrow>
          (case video_files of
             [] \<Rightarrow> (Inl IndexError, st)
           | v0 # _ \<Rightarrow>
               (case move_torrent_file cfg ops (name v0) (DIR_FILM cfg) st of
                  (moved, st1) \<Rightarrow> (Inr moved, st1)))
      | MOVIE_WITH_SAMPLE \<Rightarrow>
          (case video_files of
             v0 # v1 # _ \<Rightarrow>
               (let video_file = (if size' v0 < size' v1 then v1 else v0)
                in case move_torrent_file cfg ops (name video_file) (DIR_FILM cfg) st of
                     (moved, st1) \<Rightarrow> (Inr moved, st1))
           | _ \<Rightarrow> (Inl IndexError, st))
      | EPISODE \<Rightarrow>
          (case td of
             EpisodeData episode_data \<Rightarrow>
               (case get_season_dir cfg ops (series_name episode_data) (season_num episode_data) st of
                  (Inl err, st1) \<Rightarrow> (Inl err, st1)
                | (Inr season_dir, st1) \<Rightarrow>
                    (case move_torrent_file cfg ops (filename episode_data) season_dir st1 of
                       (moved, st2) \<Rightarrow> (Inr moved, st2)))
           | SeriesData series_data \<Rightarrow> (Inl KeyError, st)
           | NoData \<Rightarrow> (Inl TypeError, st))
      | SEASON \<Rightarrow> move_series cfg ops td st
      | SERIES \<Rightarrow> move_series cfg ops td st
      | UNKNOWN \<Rightarrow> (Inr False, st))"

text \<open>A torrent of the client: the attributes and the file list that \<^verbatim>\<open>main\<close> reads.\<close>

record torrent =
  torrent_id :: int
  torrent_name :: string
  status :: string
  files :: "file_info list"
  is_finished :: bool

text \<open>The body of the loop over the torrents, lines 242 to 275, with the list \<^verbatim>\<open>ids_to_remove\<close>.\<close>

definition process_torrent ::
  "config \<Rightarrow> 'w ops \<Rightarrow> torrent \<Rightarrow> int list \<Rightarrow> 'w state \<Rightarrow> (py_error + int list) \<times> 'w state" where
  "process_torrent cfg ops t ids_to_remove st =
     (if status t \<in> set TORRENT_COMPLETE_STATUS then
        (let st1 = emit (Log (Checking (torrent_id t) (torrent_name t))) st;
             video_files = get_video_files (files t)
         in if length video_files \<noteq> 0 then
              (case get_torrent_type cfg video_files of
                 Inl err \<Rightarrow> (Inl err, st1)
               | Inr (torrent_type, td) \<Rightarrow>
                   (case relocate cfg ops torrent_type td video_files
                           (emit (Log (Torrent_type torrent_type)) st1) of
                      (Inl err, st2) \<Rightarrow> (Inl err, st2)
                    | (Inr moved, st2) \<Rightarrow>
                        if moved \<and> is_finished t
                        then (Inr (ids_to_remove @ [torrent_id t]), emit (Log Torrent_is_finished) st2)
                        else (Inr ids_to_remove, st2)))
            else (Inr ids_to_remove, st1))
      else (Inr ids_to_remove, st))"

fun process_torrents ::
  "config \<Rightarrow> 'w ops \<Rightarrow> torrent list \<Rightarrow> int list \<Rightarrow> 'w state \<Rightarrow> (py_error + int list) \<times> 'w state" where
  "process_torrents cfg ops [] ids_to_remove st = (Inr ids_to_remove, st)"
| "process_torrents cfg ops (t # ts) ids_to_remove st =
     (case process_torrent cfg ops t ids_to_remove st of
        (Inl err, st1) \<Rightarrow> (Inl err, st1)
      | (Inr ids1, st1) \<Rightarrow> process_torrents cfg ops ts ids1 st1)"

text \<open>Lines 277 to 280: the one request that removes the collected torrents and their data.\<close>

definition remove_finished ::
  "config \<Rightarrow> 'w ops \<Rightarrow> int list \<Rightarrow> 'w state \<Rightarrow> (py_error + unit) \<times> 'w state" where
  "remove_finished cfg ops ids_to_remove st =
     (if length ids_to_remove \<noteq> 0 then
        (case is_dry_run cfg (emit (Log Removing_finished_torrents) st) of
           (True, st1) \<Rightarrow> (Inr (), st1)
         | (False, st1) \<Rightarrow>
             (case remove_torrent ops (world st1) ids_to_remove of
                (ok, w) \<Rightarrow>
                  (let st2 = emit (RemoveTorrent ids_to_remove) (st1\<lparr>world := w\<rparr>)
                   in if ok then (Inr (), st2) else (Inl TransmissionError, st2))))
      else (Inr (), st))"

text \<open>
  \<^verbatim>\<open>main\<close>. The argument \<open>client\<close> is \<open>None\<close> when the connection to Transmission fails, and
  otherwise the torrents that \<^verbatim>\<open>get_torrents()\<close> lists. The result is the exit code.
\<close>

definition main :: "config \<Rightarrow> 'w ops \<Rightarrow> torrent list option \<Rightarrow> 'w state \<Rightarrow> (py_error + int) \<times> 'w state" where
  "main cfg ops client st =
     (let st0 = emit (Log Connecting) st in
      case client of
        None \<Rightarrow> (Inr 0, emit (Log Could_not_connect) st0)
      | Some torrents \<Rightarrow>
          (case process_torrents cfg ops torrents [] st0 of
             (Inl err, st1) \<Rightarrow> (Inl err, st1)
           | (Inr ids_to_remove, st1) \<Rightarrow>
               (case remove_finished cfg ops ids_to_remove st1 of
                  (Inl err, st2) \<Rightarrow> (Inl err, st2)
                | (Inr u, st2) \<Rightarrow> (Inr 0, emit (Log Done) st2))))"

subsection \<open>Definitions used to state the properties\<close>

text \<open>
  The size difference as the specification describes it: the difference of the second size
  to the first, over the first, times 100; its absolute value when it is negative; a tenth
  of it when it exceeds 100.
\<close>

fun float_abs :: "pyfloat \<Rightarrow> pyfloat" where
  "float_abs (Float m u) = Float \<bar>m\<bar> u"
| "float_abs PosInf = PosInf"
| "float_abs NegInf = PosInf"

definition size_diff_magnitude :: "int \<Rightarrow> int \<Rightarrow> py_error + pyfloat" where
  "size_diff_magnitude first second =
     (case int_truediv (second - first) first of
        Inl err \<Rightarrow> Inl err
      | Inr ratio \<Rightarrow>
          (let diff = float_mul ratio 100
           in Inr (if float_lt diff 0 then float_abs diff
                   else if float_gt diff 100 then float_div diff 10
                   else diff)))"

text \<open>
  A small collaborator for the examples: the state is the list of the paths that exist, a
  copy succeeds when its source exists, the other calls always succeed.
\<close>

definition list_ops :: "string list ops" where
  "list_ops =
     \<lparr>path_exists = (\<lambda>w p. p \<in> set w),
      makedirs = (\<lambda>w p. (True, p # w)),
      copyfile = (\<lambda>w src dst. if src \<in> set w then (True, dst # w) else (False, w)),
      remove_torrent = (\<lambda>w ids. (True, w))\<rparr>"

text \<open>The settings of the script as it is distributed, with short directory names.\<close>

definition example_config :: config where
  "example_config =
     \<lparr>DIR_DOWNLOAD = ''/dl'', DIR_FILM = ''/films'', DIR_SERIES = ''/series'',
      SEASON_PREFIX = ''s'', STRIP_CHARS = '' ._-'', DRY_RUN = False\<rparr>"

text \<open>
  An \<^verbatim>\<open>SxxEyy\<close> marker at the head of a string: the letter S, one or two digits and no third,
  the letter E and two digits, the letters in either case. \<open>marker_groups\<close> returns the season
  digits, the episode digits and the rest of the line. \<open>zero_pad2\<close> pads a string of digits
  to two with zeros on the left.
\<close>

definition marker_groups :: "string \<Rightarrow> string list option" where
  "marker_groups s =
     (case s of
        [] \<Rightarrow> None
      | c # r \<Rightarrow>
          (let sd = takeWhile is_digit r; t = dropWhile is_digit r in
           if lower c = CHR ''s'' \<and> (length sd = 1 \<or> length sd = 2) then
             (case t of
                [] \<Rightarrow> None
              | e # t' \<Rightarrow>
                  if lower e = CHR ''e'' \<and> 2 \<le> length (takeWhile is_digit t')
                  then Some [sd, take 2 t', takeWhile (\<lambda>c. c \<noteq> CHR 0x0A) (drop 2 t')]
                  else None)
           else None))"

definition zero_pad2 :: "string \<Rightarrow> string" where
  "zero_pad2 ds = replicate (2 - length ds) (CHR ''0'') @ ds"

text \<open>
  Predicates on the trace. \<open>new_events st st'\<close> are the events that \<open>st'\<close> has after those of
  \<open>st\<close>, when its trace extends the one of \<open>st\<close>. \<open>only_logs st st'\<close>: from \<open>st\<close> to \<open>st'\<close> the
  state of the collaborators is the same and every new event is a log line, so that no
  directory was made, no file copied and no removal requested.
\<close>

definition is_log :: "event \<Rightarrow> bool" where
  "is_log e = (case e of Log m \<Rightarrow> True | _ \<Rightarrow> False)"

definition is_error_moving :: "event \<Rightarrow> bool" where
  "is_error_moving e = (case e of Log (Error_moving target) \<Rightarrow> True | _ \<Rightarrow> False)"

definition new_events :: "'w state \<Rightarrow> 'w state \<Rightarrow> event list" where
  "new_events st st' = drop (length (trace st)) (trace st')"

definition extends :: "'w state \<Rightarrow> 'w state \<Rightarrow> bool" where
  "extends st st' = (take (length (trace st)) (trace st') = trace st)"

definition only_logs :: "'w state \<Rightarrow> 'w state \<Rightarrow> bool" where
  "only_logs st st' = (world st' = world st \<and> extends st st' \<and> list_all is_log (new_events st st'))"

text \<open>
  \<^verbatim>\<open>move_torrent_file\<close> logs \<open>Error_moving\<close> exactly when it returns \<open>False\<close>. \<open>no_error\<close>: no
  relocation among the events has failed; \<open>ends_in_error\<close>: one has, and it is the last event.
\<close>

definition no_error :: "event list \<Rightarrow> bool" where
  "no_error evs = list_all (\<lambda>e. \<not> is_error_moving e) evs"

definition ends_in_error :: "event list \<Rightarrow> bool" where
  "ends_in_error evs = (evs \<noteq> [] \<and> is_error_moving (last evs) \<and> no_error (butlast evs))"

text \<open>Examples: a finished torrent with one video file, and a series of two seasons.\<close>

definition example_torrent :: torrent where
  "example_torrent =
     \<lparr>torrent_id = 7, torrent_name = ''m'', status = ''seeding'',
      files = [\<lparr>name = ''m.avi'', size' = 700\<rparr>, \<lparr>name = ''m.nfo'', size' = 1\<rparr>],
      is_finished = True\<rparr>"

definition example_episodes :: "episode list" where
  "example_episodes =
     [\<lparr>series_name = ''Show'', season_num = ''01'', episode_num = ''01'',
       filename = ''Show.S01E01.mkv''\<rparr>,
      \<lparr>series_name = ''Show'', season_num = ''01'', episode_num = ''02'',
       filename = ''Show.S01E02.mkv''\<rparr>,
      \<lparr>series_name = ''Show'', season_num = ''02'', episode_num = ''01'',
       filename = ''Show.S02E01.mkv''\<rparr>]"

definition example_series :: series where
  "example_series =
     \<lparr>series_name' = Some ''Show'',
      seasons = [(''01'', take 2 example_episodes), (''02'', drop 2 example_episodes)],
      seasons_count = 2\<rparr>"

section \<open>Properties\<close>

subsection \<open>Binary64 arithmetic\<close>

lemma double_of_ratio_zero: "double_of_ratio 0 d = Float 0 0"
  by (simp add: double_of_ratio_def)

lemma int_truediv_zero_divisor: "int_truediv a b = Inl ZeroDivisionError \<longleftrightarrow> b = 0"
  by (auto simp: int_truediv_def split: pyfloat.splits)

lemma int_truediv_zero_dividend: "b \<noteq> 0 \<Longrightarrow> int_truediv 0 b = Inr (Float 0 0)"
  by (simp add: int_truediv_def double_of_ratio_zero)

lemma int_truediv_by_zero: "int_truediv a 0 = Inl ZeroDivisionError"
  by (simp add: int_truediv_def)

lemma float_lt_zero: "float_lt (Float m u) 0 \<longleftrightarrow> m < 0"
  by (simp add: mult_less_0_iff)

lemma float_abs_negative: "float_lt x 0 \<Longrightarrow> float_abs x = float_neg x"
proof (cases x)
  case (Float m u)
  assume "float_lt x 0"
  with Float have "m < 0" by (simp only: float_lt_zero)
  with Float show ?thesis by simp
qed simp_all

lemma magnitude_100_1000: "size_diff_magnitude 100 1000 = Inr (Float 6333186975989760 (- 46))"
  by (simp add: size_diff_magnitude_def int_truediv_def double_of_ratio_def double_pos_def
        floor_log2_def bit_length.simps round_half_even_def Let_def)

lemma magnitude_100_150: "size_diff_magnitude 100 150 = Inr (Float 7036874417766400 (- 47))"
  by (simp add: size_diff_magnitude_def int_truediv_def double_of_ratio_def double_pos_def
        floor_log2_def bit_length.simps round_half_even_def Let_def)

lemma equal_sizes_magnitude: "s \<noteq> 0 \<Longrightarrow> size_diff_magnitude s s = Inr (Float 0 0)"
  by (simp add: size_diff_magnitude_def int_truediv_zero_dividend double_of_ratio_zero)

subsection \<open>The sample heuristic and the classifier\<close>

text \<open>On two files the heuristic is the threshold test on the magnitude of the specification.\<close>

lemma is_movie_with_sample_pair:
  "is_movie_with_sample [a, b] =
     (case size_diff_magnitude (size' a) (size' b) of
        Inl err \<Rightarrow> Inl err
      | Inr m \<Rightarrow> Inr (float_ge m 90))"
  by (auto simp: is_movie_with_sample_def size_diff_magnitude_def Let_def float_abs_negative
           split: sum.splits)

lemma get_torrent_type_sample:
  "get_torrent_type cfg vfs = Inr (MOVIE_WITH_SAMPLE, td) \<longleftrightarrow>
     length vfs \<noteq> 1 \<and> is_movie_with_sample vfs = Inr True \<and> td = NoData"
  by (auto simp: get_torrent_type_def split: sum.splits option.splits bool.splits if_splits)

lemma series_loop_error: "series_loop cfg vfs sname ss = Inl err \<Longrightarrow> err = TypeError"
  by (induction vfs arbitrary: sname ss) (auto split: option.splits if_splits)

lemma get_series_data_error: "get_series_data cfg vfs = Inl err \<Longrightarrow> err = TypeError"
  by (auto simp: get_series_data_def split: sum.splits option.splits if_splits
           dest: series_loop_error)

lemma is_movie_with_sample_zero:
  "is_movie_with_sample [a, b] = Inl ZeroDivisionError \<longleftrightarrow> size' a = 0"
  by (auto simp: is_movie_with_sample_def Let_def int_truediv_zero_divisor int_truediv_by_zero
           split: sum.splits)

lemma get_torrent_type_zero:
  "get_torrent_type cfg [a, b] = Inl ZeroDivisionError \<longleftrightarrow> size' a = 0"
proof
  assume "get_torrent_type cfg [a, b] = Inl ZeroDivisionError"
  then have "is_movie_with_sample [a, b] = Inl ZeroDivisionError"
    by (auto simp: get_torrent_type_def
             split: sum.splits option.splits bool.splits if_splits dest: get_series_data_error)
  then show "size' a = 0" by (simp only: is_movie_with_sample_zero)
next
  assume "size' a = 0"
  then have "is_movie_with_sample [a, b] = Inl ZeroDivisionError"
    by (simp only: is_movie_with_sample_zero)
  then show "get_torrent_type cfg [a, b] = Inl ZeroDivisionError"
    by (simp add: get_torrent_type_def)
qed

lemma equal_sizes_not_sample:
  assumes "size' a = size' b"
  shows "is_movie_with_sample [a, b] \<noteq> Inr True"
proof (cases "size' a = 0")
  case True
  then have "is_movie_with_sample [a, b] = Inl ZeroDivisionError"
    by (simp add: is_movie_with_sample_zero)
  then show ?thesis by simp
next
  case False
  with assms show ?thesis
    by (simp add: is_movie_with_sample_pair equal_sizes_magnitude float_ge_def)
qed

text \<open>
  Claim C2. On a job of exactly two video files the classifier answers
  \<open>MOVIE_WITH_SAMPLE\<close> exactly when the magnitude of the size difference is defined and at
  least 90. The sizes 100 and 1000 give the magnitude 90 and a movie with sample, whatever
  the names; the sizes 100 and 150 give 50 and no movie with sample.
\<close>

theorem sample_threshold:
  "((\<exists>td. get_torrent_type cfg [a, b] = Inr (MOVIE_WITH_SAMPLE, td)) \<longleftrightarrow>
      (\<exists>m. size_diff_magnitude (size' a) (size' b) = Inr m \<and> float_ge m 90))
   \<and> (\<exists>m. size_diff_magnitude 100 1000 = Inr m \<and> float_eq m 90)
   \<and> get_torrent_type cfg [\<lparr>name = n0, size' = 100\<rparr>, \<lparr>name = n1, size' = 1000\<rparr>]
        = Inr (MOVIE_WITH_SAMPLE, NoData)
   \<and> (\<exists>m. size_diff_magnitude 100 150 = Inr m \<and> float_eq m 50)
   \<and> \<not> (\<exists>td. get_torrent_type cfg [\<lparr>name = n0, size' = 100\<rparr>, \<lparr>name = n1, size' = 150\<rparr>]
              = Inr (MOVIE_WITH_SAMPLE, td))"
proof -
  have general: "(\<exists>td. get_torrent_type cfg [x, y] = Inr (MOVIE_WITH_SAMPLE, td)) \<longleftrightarrow>
      (\<exists>m. size_diff_magnitude (size' x) (size' y) = Inr m \<and> float_ge m 90)" for x y
    by (auto simp: get_torrent_type_sample is_movie_with_sample_pair split: sum.splits)
  have m1: "\<exists>m. size_diff_magnitude 100 1000 = Inr m \<and> float_eq m 90"
    by (simp add: magnitude_100_1000 float_eq_def)
  have m2: "\<exists>m. size_diff_magnitude 100 150 = Inr m \<and> float_eq m 50"
    by (simp add: magnitude_100_150 float_eq_def)
  have c1: "get_torrent_type cfg [\<lparr>name = n0, size' = 100\<rparr>, \<lparr>name = n1, size' = 1000\<rparr>]
              = Inr (MOVIE_WITH_SAMPLE, NoData)"
    by (simp add: get_torrent_type_sample is_movie_with_sample_pair magnitude_100_1000 float_ge_def)
  have c2: "\<not> (\<exists>td. get_torrent_type cfg [\<lparr>name = n0, size' = 100\<rparr>, \<lparr>name = n1, size' = 150\<rparr>]
                   = Inr (MOVIE_WITH_SAMPLE, td))"
    by (simp add: get_torrent_type_sample is_movie_with_sample_pair magnitude_100_150 float_ge_def)
  from general m1 m2 c1 c2 show ?thesis by blast
qed

theorem sample_threshold_witness:
  "get_torrent_type example_config
      [\<lparr>name = ''film.mkv'', size' = 100\<rparr>, \<lparr>name = ''sample.mkv'', size' = 1000\<rparr>]
     = Inr (MOVIE_WITH_SAMPLE, NoData)"
  using sample_threshold [of example_config _ _ "''film.mkv''" "''sample.mkv''"]
  by blast

text \<open>
  Claim C10. The heuristic divides by the size of the first file without a test: on two
  files it raises \<open>ZeroDivisionError\<close> exactly when that size is zero, and so does the
  classifier. Hence, for a size that is not negative, the classifier returns a type only
  when the first size is positive.
\<close>

theorem zero_first_size:
  "(is_movie_with_sample [a, b] = Inl ZeroDivisionError \<longleftrightarrow> size' a = 0)
   \<and> (get_torrent_type cfg [a, b] = Inl ZeroDivisionError \<longleftrightarrow> size' a = 0)
   \<and> (0 \<le> size' a \<and> (\<exists>r. get_torrent_type cfg [a, b] = Inr r) \<longrightarrow> 0 < size' a)"
proof -
  have "size' a \<noteq> 0" if "get_torrent_type cfg [a, b] = Inr r" for r
    using that get_torrent_type_zero [of cfg a b] by auto
  then show ?thesis
    using is_movie_with_sample_zero [of a b] get_torrent_type_zero [of cfg a b] by fastforce
qed

theorem zero_first_size_witness:
  "get_torrent_type example_config [\<lparr>name = ''a.mkv'', size' = 0\<rparr>, \<lparr>name = ''b.mkv'', size' = 150\<rparr>]
     = Inl ZeroDivisionError"
  using zero_first_size [of "\<lparr>name = ''a.mkv'', size' = 0\<rparr>" "\<lparr>name = ''b.mkv'', size' = 150\<rparr>"
      example_config]
  by simp

subsection \<open>Relocating one file\<close>

lemma example_config_fields:
  "DIR_DOWNLOAD example_config = ''/dl''" "DIR_FILM example_config = ''/films''"
  "DIR_SERIES example_config = ''/series''" "SEASON_PREFIX example_config = ''s''"
  "STRIP_CHARS example_config = '' ._-''" "DRY_RUN example_config = False"
  by (simp_all add: example_config_def)

lemma relocate_sample:
  "relocate cfg ops MOVIE_WITH_SAMPLE td [a, b] st =
     (case move_torrent_file cfg ops (name (if size' a < size' b then b else a)) (DIR_FILM cfg) st of
        (moved, st1) \<Rightarrow> (Inr moved, st1))"
  by (simp add: relocate_def Let_def)

text \<open>
  Two video files of equal sizes are never classified as a movie with sample: their size
  difference is zero, or the division raises when both sizes are zero. So \<^verbatim>\<open>main\<close> does not
  reach the branch for a movie with sample with them. That branch, lines 254 to 257, takes
  the second file when the first is strictly smaller, and the first file otherwise.
\<close>

lemma sample_selection_rule:
  "(size' a = size' b \<longrightarrow> (\<forall>td. get_torrent_type cfg [a, b] \<noteq> Inr (MOVIE_WITH_SAMPLE, td)))
   \<and> (size' a < size' b \<longrightarrow>
        relocate cfg ops MOVIE_WITH_SAMPLE td [a, b] st =
          (case move_torrent_file cfg ops (name b) (DIR_FILM cfg) st of
             (moved, st1) \<Rightarrow> (Inr moved, st1)))
   \<and> (size' b \<le> size' a \<longrightarrow>
        relocate cfg ops MOVIE_WITH_SAMPLE td [a, b] st =
          (case move_torrent_file cfg ops (name a) (DIR_FILM cfg) st of
             (moved, st1) \<Rightarrow> (Inr moved, st1)))"
  by (auto simp: relocate_sample get_torrent_type_sample dest: equal_sizes_not_sample)

text \<open>
  Claim C8. When a file of the same base name exists in the target directory,
  \<^verbatim>\<open>move_torrent_file\<close> returns \<open>True\<close>; the state of the collaborators is unchanged and the
  only event is the log line, so \<^verbatim>\<open>copyfile\<close> is not called. This holds with and without
  \<^verbatim>\<open>DRY_RUN\<close>.
\<close>

theorem relocate_existing:
  assumes "path_exists ops (world st) (path_join target_dir (basename source_file))"
  shows "move_torrent_file cfg ops source_file target_dir st =
           (True, emit (Log (Already_exists (path_join target_dir (basename source_file)))) st)"
  using assms by (simp add: move_torrent_file_def Let_def)

theorem relocate_existing_witness:
  "path_exists list_ops [''/films/a.mkv''] (path_join ''/films'' (basename ''sub/a.mkv''))
   \<and> move_torrent_file example_config list_ops ''sub/a.mkv'' ''/films''
        \<lparr>world = [''/films/a.mkv''], trace = []\<rparr>
       = (True, \<lparr>world = [''/films/a.mkv''], trace = [Log (Already_exists ''/films/a.mkv'')]\<rparr>)"
proof -
  have h: "path_exists list_ops (world \<lparr>world = [''/films/a.mkv''], trace = []\<rparr>)
             (path_join ''/films'' (basename ''sub/a.mkv''))"
    by (simp add: list_ops_def path_join_def basename_def)
  show ?thesis
    using h relocate_existing [OF h, of example_config]
    by (simp add: emit_def path_join_def basename_def)
qed

subsection \<open>Traces\<close>

lemma extends_iff: "extends st st' \<longleftrightarrow> trace st' = trace st @ new_events st st'"
  by (metis append_take_drop_id extends_def new_events_def append_eq_conv_conj)

lemma extendsI: "trace st' = trace st @ evs \<Longrightarrow> extends st st' \<and> new_events st st' = evs"
  by (simp add: extends_def new_events_def)

lemma only_logs_refl: "only_logs st st"
  by (simp add: only_logs_def extends_def new_events_def)

lemma only_logs_trans: "only_logs a b \<Longrightarrow> only_logs b c \<Longrightarrow> only_logs a c"
proof -
  assume ab: "only_logs a b" and bc: "only_logs b c"
  from ab have tb: "trace b = trace a @ new_events a b" by (simp add: only_logs_def extends_iff)
  from bc have tc: "trace c = trace b @ new_events b c" by (simp add: only_logs_def extends_iff)
  from tb tc have "trace c = trace a @ (new_events a b @ new_events b c)" by simp
  from extendsI [OF this] ab bc show ?thesis by (simp add: only_logs_def)
qed

lemma only_logs_emit: "only_logs st (emit (Log m) st)"
  by (simp add: only_logs_def extends_def new_events_def emit_def is_log_def)

lemma only_logs_emit_after: "only_logs a b \<Longrightarrow> only_logs a (emit (Log m) b)"
  using only_logs_trans only_logs_emit by blast

lemma no_error_append: "no_error (a @ b) \<longleftrightarrow> no_error a \<and> no_error b"
  by (simp add: no_error_def)

lemma ends_in_error_append: "no_error a \<Longrightarrow> ends_in_error b \<Longrightarrow> ends_in_error (a @ b)"
  by (auto simp: ends_in_error_def no_error_def butlast_append)

lemma ends_in_error_split:
  assumes "ends_in_error evs" and "evs = pre @ e # post" and "is_error_moving e"
  shows "post = []"
proof (rule ccontr)
  assume "post \<noteq> []"
  with assms(2) have "e \<in> set (butlast evs)"
    by (simp add: butlast_append)
  with assms(1,3) show False
    by (auto simp: ends_in_error_def no_error_def list_all_iff)
qed

lemma no_error_split: "no_error (pre @ e # post) \<Longrightarrow> \<not> is_error_moving e"
  by (simp add: no_error_def)

lemma trace_emit: "trace (emit e st) = trace st @ [e]"
  by (simp add: emit_def)

lemma world_emit: "world (emit e st) = world st"
  by (simp add: emit_def)

subsection \<open>The events of a relocation\<close>

text \<open>
  Every call of \<^verbatim>\<open>move_torrent_file\<close> adds events; when it returns \<open>False\<close> the last of them
  is \<open>Error_moving\<close>, and no other call adds that event.
\<close>

lemma move_torrent_file_events:
  assumes "move_torrent_file cfg ops source_file target_dir st = (moved, st')"
  shows "\<exists>evs. trace st' = trace st @ evs \<and> evs \<noteq> []
           \<and> (if moved then no_error evs else ends_in_error evs)"
proof -
  let ?target = "path_join target_dir (basename source_file)"
  let ?source = "path_join (DIR_DOWNLOAD cfg) source_file"
  show ?thesis
  proof (cases "path_exists ops (world st) ?target")
    case True
    with assms have "moved" and "trace st' = trace st @ [Log (Already_exists ?target)]"
      by (auto simp: move_torrent_file_def Let_def trace_emit)
    then show ?thesis by (simp add: no_error_def is_error_moving_def)
  next
    case False
    show ?thesis
    proof (cases "DRY_RUN cfg")
      case True
      with False assms have "moved"
        and "trace st' = trace st @ [Log (Moving ?source ?target), Log Skipping_due_to_dry_run]"
        by (auto simp: move_torrent_file_def Let_def is_dry_run_def trace_emit)
      then show ?thesis by (simp add: no_error_def is_error_moving_def)
    next
      case dry: False
      obtain ok w where c: "copyfile ops (world st) ?source ?target = (ok, w)"
        by (cases "copyfile ops (world st) ?source ?target")
      show ?thesis
      proof (cases ok)
        case True
        with False dry c assms have "moved"
          and "trace st' = trace st @ [Log (Moving ?source ?target), CopyFile ?source ?target]"
          by (auto simp: move_torrent_file_def Let_def is_dry_run_def trace_emit world_emit)
        then show ?thesis by (simp add: no_error_def is_error_moving_def)
      next
        case nok: False
        with False dry c assms have "\<not> moved"
          and "trace st' = trace st @ [Log (Moving ?source ?target), CopyFile ?source ?target,
                 Log (Error_moving ?target)]"
          by (auto simp: move_torrent_file_def Let_def is_dry_run_def trace_emit world_emit)
        then show ?thesis by (simp add: ends_in_error_def no_error_def is_error_moving_def)
      qed
    qed
  qed
qed

lemma get_season_dir_events:
  assumes "get_season_dir cfg ops sname snum st = (r, st')"
  shows "\<exists>evs. trace st' = trace st @ evs \<and> no_error evs"
  using assms
  by (auto simp: get_season_dir_def Let_def is_dry_run_def trace_emit no_error_def
        is_error_moving_def split: if_splits prod.splits)

lemma move_episodes_events:
  assumes "move_episodes cfg ops eps moved st = (r, st')"
  shows "\<exists>evs. trace st' = trace st @ evs
          \<and> (case r of Inl err \<Rightarrow> no_error evs
               | Inr (m, broke) \<Rightarrow> if broke then \<not> m \<and> ends_in_error evs else no_error evs)"
  using assms
proof (induction eps arbitrary: moved st)
  case Nil
  then show ?case by (auto simp: no_error_def)
next
  case (Cons ep eps)
  obtain r1 st1 where g: "get_season_dir cfg ops (series_name ep) (season_num ep) st = (r1, st1)"
    by (cases "get_season_dir cfg ops (series_name ep) (season_num ep) st")
  from get_season_dir_events [OF g] obtain evs1 where
    t1: "trace st1 = trace st @ evs1" and n1: "no_error evs1" by blast
  show ?case
  proof (cases r1)
    case (Inl err)
    with Cons.prems g t1 n1 show ?thesis by auto
  next
    case (Inr d)
    obtain m2 st2 where m: "move_torrent_file cfg ops (filename ep) d st1 = (m2, st2)"
      by (cases "move_torrent_file cfg ops (filename ep) d st1")
    from move_torrent_file_events [OF m] obtain evs2 where
      t2: "trace st2 = trace st1 @ evs2" and
      n2: "if m2 then no_error evs2 else ends_in_error evs2" by blast
    show ?thesis
    proof (cases m2)
      case False
      with Cons.prems g Inr m have "r = Inr (False, True)" "st' = st2" by simp_all
      moreover from False n1 n2 have "ends_in_error (evs1 @ evs2)"
        by (simp add: ends_in_error_append)
      ultimately show ?thesis using t1 t2 by auto
    next
      case True
      with Cons.prems g Inr m have "move_episodes cfg ops eps True st2 = (r, st')" by simp
      from Cons.IH [OF this] obtain evs3 where
        t3: "trace st' = trace st2 @ evs3" and
        n3: "case r of Inl err \<Rightarrow> no_error evs3
               | Inr (m, broke) \<Rightarrow> if broke then \<not> m \<and> ends_in_error evs3 else no_error evs3"
        by blast
      from True n1 n2 have n12: "no_error (evs1 @ evs2)" by (simp add: no_error_append)
      from t1 t2 t3 have t: "trace st' = trace st @ ((evs1 @ evs2) @ evs3)" by simp
      from n12 n3 have "case r of Inl err \<Rightarrow> no_error ((evs1 @ evs2) @ evs3)
               | Inr (m, broke) \<Rightarrow> if broke then \<not> m \<and> ends_in_error ((evs1 @ evs2) @ evs3)
                                   else no_error ((evs1 @ evs2) @ evs3)"
        by (auto simp: no_error_append ends_in_error_append split: sum.splits prod.splits if_splits)
      with t show ?thesis by blast
    qed
  qed
qed

lemma move_seasons_events:
  assumes "move_seasons cfg ops ss moved st = (r, st')"
  shows "\<exists>evs. trace st' = trace st @ evs \<and> (no_error evs \<or> (r = Inr False \<and> ends_in_error evs))"
  using assms
proof (induction ss arbitrary: moved st)
  case Nil
  then show ?case by (auto simp: no_error_def)
next
  case (Cons s ss)
  obtain k eps where s: "s = (k, eps)" by (cases s)
  obtain r1 st1 where e: "move_episodes cfg ops eps moved st = (r1, st1)"
    by (cases "move_episodes cfg ops eps moved st")
  from move_episodes_events [OF e] obtain evs1 where
    t1: "trace st1 = trace st @ evs1" and
    n1: "case r1 of Inl err \<Rightarrow> no_error evs1
          | Inr (m, broke) \<Rightarrow> if broke then \<not> m \<and> ends_in_error evs1 else no_error evs1"
    by blast
  show ?case
  proof (cases r1)
    case (Inl err)
    with Cons.prems s e t1 n1 show ?thesis by auto
  next
    case (Inr mb)
    obtain m1 broke where mb: "mb = (m1, broke)" by (cases mb)
    show ?thesis
    proof (cases broke)
      case True
      with Cons.prems s e Inr mb t1 n1 show ?thesis by auto
    next
      case False
      with Cons.prems s e Inr mb have "move_seasons cfg ops ss m1 st1 = (r, st')" by simp
      from Cons.IH [OF this] obtain evs2 where
        t2: "trace st' = trace st1 @ evs2" and
        n2: "no_error evs2 \<or> (r = Inr False \<and> ends_in_error evs2)" by blast
      from False Inr mb n1 have "no_error evs1" by simp
      with n2 have "no_error (evs1 @ evs2) \<or> (r = Inr False \<and> ends_in_error (evs1 @ evs2))"
        by (auto simp: no_error_append ends_in_error_append)
      with t1 t2 show ?thesis by auto
    qed
  qed
qed

lemma move_episodes_append:
  "move_episodes cfg ops (xs @ ys) moved st =
     (case move_episodes cfg ops xs moved st of
        (Inl err, st1) \<Rightarrow> (Inl err, st1)
      | (Inr (m1, broke), st1) \<Rightarrow>
          if broke then (Inr (m1, broke), st1) else move_episodes cfg ops ys m1 st1)"
  by (induction xs arbitrary: moved st) (auto split: prod.splits sum.splits)

lemma move_seasons_flat:
  "move_seasons cfg ops ss moved st =
     (case move_episodes cfg ops (concat (map snd ss)) moved st of
        (Inl err, st1) \<Rightarrow> (Inl err, st1)
      | (Inr (m1, broke), st1) \<Rightarrow> (Inr m1, st1))"
proof (induction ss arbitrary: moved st)
  case Nil
  then show ?case by simp
next
  case (Cons s ss)
  obtain k eps where s: "s = (k, eps)" by (cases s)
  show ?case
    by (auto simp: s move_episodes_append Cons.IH split: prod.splits sum.splits)
qed

lemma move_episodes_broke: "move_episodes cfg ops eps moved st = (Inr (m, True), st') \<Longrightarrow> \<not> m"
  using move_episodes_events [of cfg ops eps moved st "Inr (m, True)" st'] by auto

lemma move_torrent_file_grows:
  "move_torrent_file cfg ops source_file target_dir st = (moved, st') \<Longrightarrow>
     length (trace st) < length (trace st')"
  using move_torrent_file_events [of cfg ops source_file target_dir st moved st'] by auto

lemma get_season_dir_grows:
  "get_season_dir cfg ops sname snum st = (r, st') \<Longrightarrow> length (trace st) \<le> length (trace st')"
  using get_season_dir_events [of cfg ops sname snum st r st'] by auto

lemma move_episodes_grows:
  assumes "move_episodes cfg ops eps moved st = (Inr (m, broke), st')"
  shows "length (trace st) \<le> length (trace st')
         \<and> (m \<and> \<not> moved \<longrightarrow> length (trace st) < length (trace st'))"
  using assms
proof (induction eps arbitrary: moved st)
  case Nil
  then show ?case by auto
next
  case (Cons ep eps)
  from Cons.prems obtain d st1 where
    g: "get_season_dir cfg ops (series_name ep) (season_num ep) st = (Inr d, st1)"
    by (auto split: prod.splits sum.splits)
  obtain m2 st2 where m: "move_torrent_file cfg ops (filename ep) d st1 = (m2, st2)"
    by (cases "move_torrent_file cfg ops (filename ep) d st1")
  from get_season_dir_grows [OF g] move_torrent_file_grows [OF m]
  have lt: "length (trace st) < length (trace st2)" by simp
  show ?case
  proof (cases m2)
    case False
    with Cons.prems g m have "st' = st2" by simp
    with lt show ?thesis by simp
  next
    case True
    with Cons.prems g m have "move_episodes cfg ops eps True st2 = (Inr (m, broke), st')" by simp
    from Cons.IH [OF this] lt show ?thesis by simp
  qed
qed

lemma move_seasons_grows:
  assumes "move_seasons cfg ops ss moved st = (Inr m, st')"
  shows "length (trace st) \<le> length (trace st')
         \<and> (m \<and> \<not> moved \<longrightarrow> length (trace st) < length (trace st'))"
  using assms
proof (induction ss arbitrary: moved st)
  case Nil
  then show ?case by auto
next
  case (Cons s ss)
  obtain k eps where s: "s = (k, eps)" by (cases s)
  from Cons.prems s obtain m1 broke st1 where
    e: "move_episodes cfg ops eps moved st = (Inr (m1, broke), st1)"
    by (auto split: prod.splits sum.splits)
  note g1 = move_episodes_grows [OF e]
  show ?case
  proof (cases broke)
    case True
    with Cons.prems s e have "m = m1" "st' = st1" by simp_all
    with g1 show ?thesis by simp
  next
    case False
    with Cons.prems s e have "move_seasons cfg ops ss m1 st1 = (Inr m, st')" by simp
    from Cons.IH [OF this] g1 show ?thesis by auto
  qed
qed

lemma relocate_true_events:
  assumes "relocate cfg ops ty td vfs st = (Inr True, st')"
  shows "ty \<noteq> UNKNOWN \<and> (\<exists>evs. trace st' = trace st @ evs \<and> evs \<noteq> [] \<and> no_error evs)"
proof -
  have series: ?thesis if ty: "ty = SEASON \<or> ty = SERIES"
  proof -
    from assms ty have "\<exists>sd::series. move_seasons cfg ops (seasons sd) False st = (Inr True, st')"
      by (auto simp: relocate_def move_series_def split: type_data.splits)
    then obtain sd :: series where "move_seasons cfg ops (seasons sd) False st = (Inr True, st')" ..
    from move_seasons_events [OF this] move_seasons_grows [OF this]
    obtain evs where "trace st' = trace st @ evs" "no_error evs"
      and "length (trace st) < length (trace st')" by auto
    with ty show ?thesis by auto
  qed
  show ?thesis
  proof (cases ty)
    case UNKNOWN
    with assms show ?thesis by (simp add: relocate_def)
  next
    case MOVIE
    with assms have "\<exists>f. move_torrent_file cfg ops f (DIR_FILM cfg) st = (True, st')"
      by (auto simp: relocate_def split: list.splits prod.splits)
    then obtain f where "move_torrent_file cfg ops f (DIR_FILM cfg) st = (True, st')" ..
    from move_torrent_file_events [OF this] MOVIE show ?thesis by auto
  next
    case MOVIE_WITH_SAMPLE
    with assms have "\<exists>f. move_torrent_file cfg ops f (DIR_FILM cfg) st = (True, st')"
      by (auto simp: relocate_def Let_def split: list.splits prod.splits)
    then obtain f where "move_torrent_file cfg ops f (DIR_FILM cfg) st = (True, st')" ..
    from move_torrent_file_events [OF this] MOVIE_WITH_SAMPLE show ?thesis by auto
  next
    case EPISODE
    with assms have "\<exists>(ed::episode) d st1. get_season_dir cfg ops (series_name ed) (season_num ed) st = (Inr d, st1)
        \<and> move_torrent_file cfg ops (filename ed) d st1 = (True, st')"
      by (auto simp: relocate_def split: type_data.splits prod.splits sum.splits)
    then obtain ed :: episode and d st1 where
      g: "get_season_dir cfg ops (series_name ed) (season_num ed) st = (Inr d, st1)" and
      m: "move_torrent_file cfg ops (filename ed) d st1 = (True, st')"
      by blast
    from get_season_dir_events [OF g] obtain evs1 where
      t1: "trace st1 = trace st @ evs1" and n1: "no_error evs1" by blast
    from move_torrent_file_events [OF m] obtain evs2 where
      t2: "trace st' = trace st1 @ evs2" and n2: "evs2 \<noteq> []" "no_error evs2" by auto
    from t1 t2 have "trace st' = trace st @ (evs1 @ evs2)" by simp
    moreover from n1 n2 have "evs1 @ evs2 \<noteq> []" "no_error (evs1 @ evs2)"
      by (simp_all add: no_error_append)
    ultimately show ?thesis using EPISODE by blast
  next
    case SEASON
    then show ?thesis using series by simp
  next
    case SERIES
    then show ?thesis using series by simp
  qed
qed

text \<open>
  Claim C7. In the relocation of a season or a series, a failed relocation is the last
  event: if the new events contain \<open>Error_moving\<close>, nothing follows it, and \<^verbatim>\<open>moved\<close> is
  \<open>False\<close>. Season boundaries play no part: when the loop over a first part \<open>xs\<close> of all
  the episodes, taken in the order of the seasons, has stopped at a failure, the whole
  relocation ends in the state of that failure, whatever episodes \<open>ys\<close> remain in the same
  and in later seasons.
\<close>

theorem series_abort_on_failure:
  assumes "torrent_type = SEASON \<or> torrent_type = SERIES"
  shows "(\<forall>r st'. relocate cfg ops torrent_type td video_files st = (r, st') \<longrightarrow>
            (\<exists>evs. trace st' = trace st @ evs
              \<and> (\<forall>pre target post. evs = pre @ Log (Error_moving target) # post
                    \<longrightarrow> post = [] \<and> r = Inr False)))
       \<and> (\<forall>xs ys m st1.
            concat (map snd (seasons series_data)) = xs @ ys
            \<and> move_episodes cfg ops xs False st = (Inr (m, True), st1)
            \<longrightarrow> relocate cfg ops torrent_type (SeriesData series_data) video_files st = (Inr False, st1))"
proof (intro conjI allI impI)
  fix r st'
  assume rel: "relocate cfg ops torrent_type td video_files st = (r, st')"
  show "\<exists>evs. trace st' = trace st @ evs
         \<and> (\<forall>pre target post. evs = pre @ Log (Error_moving target) # post \<longrightarrow> post = [] \<and> r = Inr False)"
  proof (cases td)
    case (SeriesData sd)
    with assms rel have "move_seasons cfg ops (seasons sd) False st = (r, st')"
      by (auto simp: relocate_def move_series_def)
    from move_seasons_events [OF this] obtain evs where
      t: "trace st' = trace st @ evs" and
      n: "no_error evs \<or> (r = Inr False \<and> ends_in_error evs)" by blast
    have "post = [] \<and> r = Inr False" if "evs = pre @ Log (Error_moving target) # post"
      for pre target post
    proof -
      have err: "is_error_moving (Log (Error_moving target))" by (simp add: is_error_moving_def)
      from n that err have "r = Inr False \<and> ends_in_error evs"
        using no_error_split by blast
      with that err show ?thesis using ends_in_error_split by blast
    qed
    with t show ?thesis by blast
  next
    case NoData
    with assms rel have "st' = st" by (auto simp: relocate_def move_series_def)
    then show ?thesis by simp
  next
    case (EpisodeData ed)
    with assms rel have "st' = st" by (auto simp: relocate_def move_series_def)
    then show ?thesis by simp
  qed
next
  fix xs ys m st1
  assume a: "concat (map snd (seasons series_data)) = xs @ ys
             \<and> move_episodes cfg ops xs False st = (Inr (m, True), st1)"
  then have "\<not> m" using move_episodes_broke by blast
  with a have "move_seasons cfg ops (seasons series_data) False st = (Inr False, st1)"
    by (simp add: move_seasons_flat move_episodes_append)
  with assms show "relocate cfg ops torrent_type (SeriesData series_data) video_files st = (Inr False, st1)"
    by (auto simp: relocate_def move_series_def)
qed

lemma example_series_run:
  "move_episodes example_config list_ops (take 2 example_episodes) False
      \<lparr>world = [''/dl/Show.S01E01.mkv'', ''/dl/Show.S02E01.mkv''], trace = []\<rparr>
    = (Inr (False, True),
       \<lparr>world = [''/series/Show/s01/Show.S01E01.mkv'', ''/series/Show/s01'',
                 ''/dl/Show.S01E01.mkv'', ''/dl/Show.S02E01.mkv''],
        trace = [MakeDirs ''/series/Show/s01'',
                 Log (Moving ''/dl/Show.S01E01.mkv'' ''/series/Show/s01/Show.S01E01.mkv''),
                 CopyFile ''/dl/Show.S01E01.mkv'' ''/series/Show/s01/Show.S01E01.mkv'',
                 Log (Moving ''/dl/Show.S01E02.mkv'' ''/series/Show/s01/Show.S01E02.mkv''),
                 CopyFile ''/dl/Show.S01E02.mkv'' ''/series/Show/s01/Show.S01E02.mkv'',
                 Log (Error_moving ''/series/Show/s01/Show.S01E02.mkv'')]\<rparr>)"
  by code_simp

text \<open>
  The second episode of the first season is missing from the download directory: its copy
  fails, and the episode of the second season, which is there, is not relocated.
\<close>

theorem series_abort_on_failure_witness:
  "(SERIES = SEASON \<or> SERIES = SERIES)
   \<and> concat (map snd (seasons example_series)) = take 2 example_episodes @ drop 2 example_episodes
   \<and> relocate example_config list_ops SERIES (SeriesData example_series) []
        \<lparr>world = [''/dl/Show.S01E01.mkv'', ''/dl/Show.S02E01.mkv''], trace = []\<rparr>
      = (Inr False,
         \<lparr>world = [''/series/Show/s01/Show.S01E01.mkv'', ''/series/Show/s01'',
                   ''/dl/Show.S01E01.mkv'', ''/dl/Show.S02E01.mkv''],
          trace = [MakeDirs ''/series/Show/s01'',
                   Log (Moving ''/dl/Show.S01E01.mkv'' ''/series/Show/s01/Show.S01E01.mkv''),
                   CopyFile ''/dl/Show.S01E01.mkv'' ''/series/Show/s01/Show.S01E01.mkv'',
                   Log (Moving ''/dl/Show.S01E02.mkv'' ''/series/Show/s01/Show.S01E02.mkv''),
                   CopyFile ''/dl/Show.S01E02.mkv'' ''/series/Show/s01/Show.S01E02.mkv'',
                   Log (Error_moving ''/series/Show/s01/Show.S01E02.mkv'')]\<rparr>)"
proof -
  have h: "SERIES = SEASON \<or> SERIES = SERIES" by simp
  have c: "concat (map snd (seasons example_series)) = take 2 example_episodes @ drop 2 example_episodes"
    by (simp add: example_series_def)
  from series_abort_on_failure [OF h, of example_config list_ops NoData "[]"
      "\<lparr>world = [''/dl/Show.S01E01.mkv'', ''/dl/Show.S02E01.mkv''], trace = []\<rparr>" example_series]
    c example_series_run h
  show ?thesis by blast
qed

subsection \<open>The list of the torrents to remove\<close>

lemma process_torrent_added:
  assumes "process_torrent cfg ops t ids st = (Inr ids', st')"
  shows "(ids' = ids \<or> ids' = ids @ [torrent_id t])
    \<and> (ids' \<noteq> ids \<longrightarrow>
          is_finished t
        \<and> status t \<in> set TORRENT_COMPLETE_STATUS
        \<and> get_video_files (files t) \<noteq> []
        \<and> (\<exists>ty td st1 st2 evs.
              get_torrent_type cfg (get_video_files (files t)) = Inr (ty, td)
            \<and> ty \<noteq> UNKNOWN
            \<and> st1 = emit (Log (Torrent_type ty)) (emit (Log (Checking (torrent_id t) (torrent_name t))) st)
            \<and> relocate cfg ops ty td (get_video_files (files t)) st1 = (Inr True, st2)
            \<and> trace st2 = trace st1 @ evs \<and> evs \<noteq> [] \<and> no_error evs
            \<and> st' = emit (Log Torrent_is_finished) st2))"
proof -
  have shape: "ids' = ids \<or> ids' = ids @ [torrent_id t]"
    using assms
    by (auto simp: process_torrent_def Let_def split: if_splits sum.splits prod.splits)
  moreover have "is_finished t
        \<and> status t \<in> set TORRENT_COMPLETE_STATUS
        \<and> get_video_files (files t) \<noteq> []
        \<and> (\<exists>ty td st1 st2 evs.
              get_torrent_type cfg (get_video_files (files t)) = Inr (ty, td)
            \<and> ty \<noteq> UNKNOWN
            \<and> st1 = emit (Log (Torrent_type ty)) (emit (Log (Checking (torrent_id t) (torrent_name t))) st)
            \<and> relocate cfg ops ty td (get_video_files (files t)) st1 = (Inr True, st2)
            \<and> trace st2 = trace st1 @ evs \<and> evs \<noteq> [] \<and> no_error evs
            \<and> st' = emit (Log Torrent_is_finished) st2)" if ne: "ids' \<noteq> ids"
  proof -
    let ?vfs = "get_video_files (files t)"
    let ?st0 = "emit (Log (Checking (torrent_id t) (torrent_name t))) st"
    from assms ne have c: "status t \<in> set TORRENT_COMPLETE_STATUS" "?vfs \<noteq> []"
      by (auto simp: process_torrent_def Let_def split: if_splits)
    with assms ne obtain ty td where cl: "get_torrent_type cfg ?vfs = Inr (ty, td)"
      by (cases "get_torrent_type cfg ?vfs") (auto simp: process_torrent_def Let_def)
    let ?st1 = "emit (Log (Torrent_type ty)) ?st0"
    obtain r2 st2 where rel: "relocate cfg ops ty td ?vfs ?st1 = (r2, st2)"
      by (cases "relocate cfg ops ty td ?vfs ?st1")
    from assms ne c cl rel have fin: "is_finished t" and r2: "r2 = Inr True"
      and st': "st' = emit (Log Torrent_is_finished) st2"
      by (auto simp: process_torrent_def Let_def split: if_splits sum.splits)
    from relocate_true_events [OF rel [unfolded r2]] obtain evs where
      "ty \<noteq> UNKNOWN" "trace st2 = trace ?st1 @ evs" "evs \<noteq> []" "no_error evs" by blast
    with fin c cl rel r2 st' show ?thesis by blast
  qed
  ultimately show ?thesis by blast
qed

lemma process_torrents_added:
  assumes "process_torrents cfg ops ts ids st = (Inr ids', st')"
  shows "\<exists>added. ids' = ids @ added
          \<and> (\<forall>i \<in> set added. \<exists>t \<in> set ts.
                 torrent_id t = i \<and> is_finished t \<and> status t \<in> set TORRENT_COMPLETE_STATUS
               \<and> get_video_files (files t) \<noteq> []
               \<and> (\<exists>ty td. get_torrent_type cfg (get_video_files (files t)) = Inr (ty, td)
                     \<and> ty \<noteq> UNKNOWN))"
  using assms
proof (induction ts arbitrary: ids st)
  case Nil
  then show ?case by simp
next
  case (Cons t ts)
  from Cons.prems obtain ids1 st1 where
    p: "process_torrent cfg ops t ids st = (Inr ids1, st1)" and
    q: "process_torrents cfg ops ts ids1 st1 = (Inr ids', st')"
    by (auto split: prod.splits sum.splits)
  from Cons.IH [OF q] obtain added where
    a: "ids' = ids1 @ added" and
    b: "\<forall>i \<in> set added. \<exists>t \<in> set ts.
                 torrent_id t = i \<and> is_finished t \<and> status t \<in> set TORRENT_COMPLETE_STATUS
               \<and> get_video_files (files t) \<noteq> []
               \<and> (\<exists>ty td. get_torrent_type cfg (get_video_files (files t)) = Inr (ty, td)
                     \<and> ty \<noteq> UNKNOWN)"
    by blast
  note pt = process_torrent_added [OF p]
  show ?case
  proof (cases "ids1 = ids")
    case True
    with a b show ?thesis by auto
  next
    case False
    with pt have i1: "ids1 = ids @ [torrent_id t]" by blast
    from False pt have "is_finished t \<and> status t \<in> set TORRENT_COMPLETE_STATUS
               \<and> get_video_files (files t) \<noteq> []
               \<and> (\<exists>ty td. get_torrent_type cfg (get_video_files (files t)) = Inr (ty, td)
                     \<and> ty \<noteq> UNKNOWN)"
      by blast
    with a b i1 show ?thesis by auto
  qed
qed

text \<open>
  Claim C6. The body of the loop over the torrents leaves \<^verbatim>\<open>ids_to_remove\<close> as it is or
  appends the id of its torrent. It appends it only if the torrent is finished, has a
  complete status and a video file, is classified with a type other than \<open>UNKNOWN\<close>, and the
  relocation returned \<open>True\<close>, having made an attempt with no failure among its events.
  Over the whole loop, every id added belongs to such a torrent.
\<close>

theorem removal_requires_success:
  "(\<forall>ids' st'. process_torrent cfg ops t ids st = (Inr ids', st') \<longrightarrow>
      (ids' = ids \<or> ids' = ids @ [torrent_id t])
      \<and> (ids' \<noteq> ids \<longrightarrow>
            is_finished t
          \<and> status t \<in> set TORRENT_COMPLETE_STATUS
          \<and> get_video_files (files t) \<noteq> []
          \<and> (\<exists>ty td st1 st2 evs.
                get_torrent_type cfg (get_video_files (files t)) = Inr (ty, td)
              \<and> ty \<noteq> UNKNOWN
              \<and> st1 = emit (Log (Torrent_type ty))
                        (emit (Log (Checking (torrent_id t) (torrent_name t))) st)
              \<and> relocate cfg ops ty td (get_video_files (files t)) st1 = (Inr True, st2)
              \<and> trace st2 = trace st1 @ evs \<and> evs \<noteq> [] \<and> no_error evs
              \<and> st' = emit (Log Torrent_is_finished) st2)))
   \<and> (\<forall>ids' st'. process_torrents cfg ops ts ids st = (Inr ids', st') \<longrightarrow>
        (\<exists>added. ids' = ids @ added
          \<and> (\<forall>i \<in> set added. \<exists>t \<in> set ts.
                 torrent_id t = i \<and> is_finished t \<and> status t \<in> set TORRENT_COMPLETE_STATUS
               \<and> get_video_files (files t) \<noteq> []
               \<and> (\<exists>ty td. get_torrent_type cfg (get_video_files (files t)) = Inr (ty, td)
                     \<and> ty \<noteq> UNKNOWN))))"
  using process_torrent_added process_torrents_added by blast

lemma example_torrent_run:
  "process_torrent example_config list_ops example_torrent [] \<lparr>world = [''/dl/m.avi''], trace = []\<rparr>
    = (Inr [7],
       \<lparr>world = [''/films/m.avi'', ''/dl/m.avi''],
        trace = [Log (Checking 7 ''m''), Log (Torrent_type MOVIE),
                 Log (Moving ''/dl/m.avi'' ''/films/m.avi''),
                 CopyFile ''/dl/m.avi'' ''/films/m.avi'', Log Torrent_is_finished]\<rparr>)"
  by code_simp

theorem removal_requires_success_witness:
  "process_torrent example_config list_ops example_torrent [] \<lparr>world = [''/dl/m.avi''], trace = []\<rparr>
    = (Inr [7],
       \<lparr>world = [''/films/m.avi'', ''/dl/m.avi''],
        trace = [Log (Checking 7 ''m''), Log (Torrent_type MOVIE),
                 Log (Moving ''/dl/m.avi'' ''/films/m.avi''),
                 CopyFile ''/dl/m.avi'' ''/films/m.avi'', Log Torrent_is_finished]\<rparr>)
   \<and> [7] = [] @ [torrent_id example_torrent]
   \<and> is_finished example_torrent
   \<and> status example_torrent \<in> set TORRENT_COMPLETE_STATUS
   \<and> get_video_files (files example_torrent) \<noteq> []"
proof -
  have "[7] \<noteq> ([] :: int list)" by simp
  with removal_requires_success [of example_config list_ops example_torrent "[]"
      "\<lparr>world = [''/dl/m.avi''], trace = []\<rparr>"] example_torrent_run
  show ?thesis by (auto simp del: append_Nil)
qed

subsection \<open>A dry run\<close>

lemma dry_is_dry_run:
  "DRY_RUN cfg \<Longrightarrow> is_dry_run cfg st = (True, emit (Log Skipping_due_to_dry_run) st)"
  by (simp add: is_dry_run_def)

lemma dry_get_season_dir:
  assumes "DRY_RUN cfg" and "get_season_dir cfg ops sname snum st = (r, st')"
  shows "only_logs st st' \<and> (\<exists>d. r = Inr d)"
  using assms
  by (auto simp: get_season_dir_def Let_def dry_is_dry_run only_logs_emit only_logs_refl split: if_splits)

lemma dry_move_torrent_file:
  assumes "DRY_RUN cfg" and "move_torrent_file cfg ops source_file target_dir st = (moved, st')"
  shows "only_logs st st' \<and> moved"
  using assms
  by (auto simp: move_torrent_file_def Let_def dry_is_dry_run only_logs_emit only_logs_emit_after
           split: if_splits)

lemma dry_move_episodes:
  assumes "DRY_RUN cfg" and "move_episodes cfg ops eps moved st = (r, st')"
  shows "only_logs st st'"
  using assms(2)
proof (induction eps arbitrary: moved st)
  case Nil
  then show ?case by (simp add: only_logs_refl)
next
  case (Cons ep eps)
  obtain r1 st1 where g: "get_season_dir cfg ops (series_name ep) (season_num ep) st = (r1, st1)"
    by (cases "get_season_dir cfg ops (series_name ep) (season_num ep) st")
  from dry_get_season_dir [OF assms(1) g] obtain d where l1: "only_logs st st1" and r1: "r1 = Inr d"
    by blast
  obtain m2 st2 where m: "move_torrent_file cfg ops (filename ep) d st1 = (m2, st2)"
    by (cases "move_torrent_file cfg ops (filename ep) d st1")
  from dry_move_torrent_file [OF assms(1) m] have l2: "only_logs st1 st2" and m2: m2 by simp_all
  from Cons.prems g r1 m m2 have "move_episodes cfg ops eps True st2 = (r, st')"
    by simp
  from Cons.IH [OF this] l1 l2 show ?case
    using only_logs_trans by blast
qed

lemma dry_move_seasons:
  assumes "DRY_RUN cfg" and "move_seasons cfg ops ss moved st = (r, st')"
  shows "only_logs st st'"
  using assms(2)
proof (induction ss arbitrary: moved st)
  case Nil
  then show ?case by (simp add: only_logs_refl)
next
  case (Cons s ss)
  obtain k eps where s: "s = (k, eps)" by (cases s)
  obtain r1 st1 where e: "move_episodes cfg ops eps moved st = (r1, st1)"
    by (cases "move_episodes cfg ops eps moved st")
  from dry_move_episodes [OF assms(1) e] have l1: "only_logs st st1" .
  show ?case
  proof (cases r1)
    case (Inl err)
    with Cons.prems s e l1 show ?thesis by simp
  next
    case (Inr mb)
    obtain m1 broke where mb: "mb = (m1, broke)" by (cases mb)
    show ?thesis
    proof (cases broke)
      case True
      with Cons.prems s e Inr mb l1 show ?thesis by simp
    next
      case False
      with Cons.prems s e Inr mb have "move_seasons cfg ops ss m1 st1 = (r, st')" by simp
      from Cons.IH [OF this] l1 show ?thesis using only_logs_trans by blast
    qed
  qed
qed

lemma dry_relocate:
  assumes "DRY_RUN cfg" and "relocate cfg ops ty td vfs st = (r, st')"
  shows "only_logs st st'"
proof (cases ty)
  case UNKNOWN
  with assms(2) show ?thesis by (simp add: relocate_def only_logs_refl)
next
  case MOVIE
  with assms show ?thesis
    by (auto simp: relocate_def only_logs_refl split: list.splits prod.splits
             dest: dry_move_torrent_file)
next
  case MOVIE_WITH_SAMPLE
  with assms show ?thesis
    by (auto simp: relocate_def Let_def only_logs_refl split: list.splits prod.splits
             dest: dry_move_torrent_file)
next
  case EPISODE
  show ?thesis
  proof (cases td)
    case (EpisodeData ed)
    obtain r1 st1 where g: "get_season_dir cfg ops (series_name ed) (season_num ed) st = (r1, st1)"
      by (cases "get_season_dir cfg ops (series_name ed) (season_num ed) st")
    from dry_get_season_dir [OF assms(1) g] obtain d where l1: "only_logs st st1" and r1: "r1 = Inr d"
      by blast
    obtain m2 st2 where m: "move_torrent_file cfg ops (filename ed) d st1 = (m2, st2)"
      by (cases "move_torrent_file cfg ops (filename ed) d st1")
    from dry_move_torrent_file [OF assms(1) m] have l2: "only_logs st1 st2" by simp
    from assms(2) EPISODE EpisodeData g r1 m have "st' = st2" by (simp add: relocate_def)
    with l1 l2 show ?thesis using only_logs_trans by blast
  qed (use assms(2) EPISODE in \<open>simp_all add: relocate_def only_logs_refl\<close>)
next
  case SEASON
  with assms show ?thesis
    by (auto simp: relocate_def move_series_def only_logs_refl split: type_data.splits
             dest: dry_move_seasons)
next
  case SERIES
  with assms show ?thesis
    by (auto simp: relocate_def move_series_def only_logs_refl split: type_data.splits
             dest: dry_move_seasons)
qed

lemma dry_process_torrent:
  assumes "DRY_RUN cfg" and "process_torrent cfg ops t ids st = (r, st')"
  shows "only_logs st st'"
  using assms
  by (auto simp: process_torrent_def Let_def only_logs_refl only_logs_emit
           split: if_splits sum.splits prod.splits
           dest!: dry_relocate intro: only_logs_trans only_logs_emit only_logs_emit_after)

lemma dry_process_torrents:
  assumes "DRY_RUN cfg" and "process_torrents cfg ops ts ids st = (r, st')"
  shows "only_logs st st'"
  using assms(2)
proof (induction ts arbitrary: ids st)
  case Nil
  then show ?case by (simp add: only_logs_refl)
next
  case (Cons t ts)
  obtain r1 st1 where p: "process_torrent cfg ops t ids st = (r1, st1)"
    by (cases "process_torrent cfg ops t ids st")
  from dry_process_torrent [OF assms(1) p] have l1: "only_logs st st1" .
  show ?case
  proof (cases r1)
    case (Inl err)
    with Cons.prems p l1 show ?thesis by simp
  next
    case (Inr ids1)
    with Cons.prems p have "process_torrents cfg ops ts ids1 st1 = (r, st')" by simp
    from Cons.IH [OF this] l1 show ?thesis using only_logs_trans by blast
  qed
qed

lemma dry_remove_finished:
  assumes "DRY_RUN cfg" and "remove_finished cfg ops ids st = (r, st')"
  shows "only_logs st st'"
  using assms
  by (auto simp: remove_finished_def dry_is_dry_run only_logs_refl split: if_splits
           intro: only_logs_emit only_logs_emit_after)

lemma dry_main:
  assumes "DRY_RUN cfg" and "main cfg ops client st = (r, st')"
  shows "only_logs st st'"
proof (cases client)
  case None
  with assms(2) show ?thesis
    by (auto simp: main_def Let_def intro: only_logs_emit only_logs_emit_after)
next
  case (Some torrents)
  let ?st0 = "emit (Log Connecting) st"
  obtain r1 st1 where p: "process_torrents cfg ops torrents [] ?st0 = (r1, st1)"
    by (cases "process_torrents cfg ops torrents [] ?st0")
  from dry_process_torrents [OF assms(1) p] have l1: "only_logs st st1"
    using only_logs_emit only_logs_trans by blast
  show ?thesis
  proof (cases r1)
    case (Inl err)
    with assms(2) Some p l1 show ?thesis by (simp add: main_def Let_def)
  next
    case (Inr ids)
    obtain r2 st2 where q: "remove_finished cfg ops ids st1 = (r2, st2)"
      by (cases "remove_finished cfg ops ids st1")
    from dry_remove_finished [OF assms(1) q] l1 have l2: "only_logs st st2"
      using only_logs_trans by blast
    from assms(2) Some p Inr q l2 show ?thesis
      by (cases r2) (auto simp: main_def Let_def intro: only_logs_emit_after)
  qed
qed

text \<open>The classifier reads \<^verbatim>\<open>STRIP_CHARS\<close> and no other setting.\<close>

lemma episode_of_patterns_config:
  "episode_of_patterns (cfg\<lparr>DRY_RUN := d\<rparr>) ps fn = episode_of_patterns cfg ps fn"
  by (induction ps) (auto split: option.splits)

lemma get_episode_data_config:
  "get_episode_data (cfg\<lparr>DRY_RUN := d\<rparr>) fn = get_episode_data cfg fn"
  by (simp add: get_episode_data_def episode_of_patterns_config)

lemma series_loop_config:
  "series_loop (cfg\<lparr>DRY_RUN := d\<rparr>) vfs sname ss = series_loop cfg vfs sname ss"
  by (induction vfs arbitrary: sname ss)
     (auto simp: get_episode_data_config split: option.splits)

lemma get_series_data_config:
  "get_series_data (cfg\<lparr>DRY_RUN := d\<rparr>) vfs = get_series_data cfg vfs"
  by (simp add: get_series_data_def series_loop_config)

lemma get_torrent_type_config:
  "get_torrent_type (cfg\<lparr>DRY_RUN := d\<rparr>) vfs = get_torrent_type cfg vfs"
  unfolding get_torrent_type_def get_series_data_config get_episode_data_config ..

lemma move_torrent_file_flag:
  "\<not> DRY_RUN cfg \<Longrightarrow>
     fst (move_torrent_file cfg ops source_file target_dir st) \<longleftrightarrow>
       path_exists ops (world st) (path_join target_dir (basename source_file))
       \<or> fst (copyfile ops (world st) (path_join (DIR_DOWNLOAD cfg) source_file)
                (path_join target_dir (basename source_file)))"
  by (auto simp: move_torrent_file_def Let_def is_dry_run_def world_emit split: prod.splits)

text \<open>
  Claim C9, as the specification states it: in a dry run the success flag of each file is
  computed exactly as without it. The download directory is empty here, so the copy fails
  and \<^verbatim>\<open>move_torrent_file\<close> returns \<open>False\<close>; in a dry run it returns \<open>True\<close>.
\<close>

theorem dry_run_frame_counterexample:
  "fst (move_torrent_file (example_config\<lparr>DRY_RUN := True\<rparr>) list_ops ''m.avi'' ''/films''
          \<lparr>world = [], trace = []\<rparr>)
   \<noteq> fst (move_torrent_file example_config list_ops ''m.avi'' ''/films''
            \<lparr>world = [], trace = []\<rparr>)"
  by (simp add: move_torrent_file_def example_config_def list_ops_def path_join_def basename_def
        is_dry_run_def emit_def Let_def)

text \<open>
  Claim C9, amended. In a dry run \<^verbatim>\<open>main\<close> leaves the state of the file system and of the
  client as it was, and the events it adds are log lines: no directory is made, no file is
  copied, no removal is requested, also when the run ends in an exception. The classifier
  does not read the flag. Every call of \<^verbatim>\<open>move_torrent_file\<close> returns \<open>True\<close>; without the flag
  it returns \<open>True\<close> exactly when the target exists or the copy succeeds.
\<close>

theorem dry_run_frame:
  assumes "DRY_RUN cfg"
  shows "(\<forall>r st'. main cfg ops client st = (r, st') \<longrightarrow>
            world st' = world st \<and> extends st st' \<and> list_all is_log (new_events st st'))
       \<and> get_torrent_type cfg video_files = get_torrent_type (cfg\<lparr>DRY_RUN := False\<rparr>) video_files
       \<and> fst (move_torrent_file cfg ops source_file target_dir st)
       \<and> (fst (move_torrent_file (cfg\<lparr>DRY_RUN := False\<rparr>) ops source_file target_dir st) \<longleftrightarrow>
            path_exists ops (world st) (path_join target_dir (basename source_file))
            \<or> fst (copyfile ops (world st) (path_join (DIR_DOWNLOAD cfg) source_file)
                     (path_join target_dir (basename source_file))))"
proof -
  have "world st' = world st \<and> extends st st' \<and> list_all is_log (new_events st st')"
    if "main cfg ops client st = (r, st')" for r st'
    using dry_main [OF assms that] by (simp add: only_logs_def)
  moreover have "get_torrent_type cfg video_files = get_torrent_type (cfg\<lparr>DRY_RUN := False\<rparr>) video_files"
    by (simp add: get_torrent_type_config)
  moreover have "fst (move_torrent_file cfg ops source_file target_dir st)"
    using dry_move_torrent_file [OF assms, of ops source_file target_dir st]
    by (cases "move_torrent_file cfg ops source_file target_dir st") simp
  moreover have "fst (move_torrent_file (cfg\<lparr>DRY_RUN := False\<rparr>) ops source_file target_dir st) \<longleftrightarrow>
            path_exists ops (world st) (path_join target_dir (basename source_file))
            \<or> fst (copyfile ops (world st) (path_join (DIR_DOWNLOAD cfg) source_file)
                     (path_join target_dir (basename source_file)))"
    using move_torrent_file_flag [of "cfg\<lparr>DRY_RUN := False\<rparr>" ops source_file target_dir st]
    by simp
  ultimately show ?thesis by blast
qed

lemma example_dry_run:
  "main (example_config\<lparr>DRY_RUN := True\<rparr>) list_ops (Some [example_torrent])
      \<lparr>world = [''/dl/m.avi''], trace = []\<rparr>
    = (Inr 0,
       \<lparr>world = [''/dl/m.avi''],
        trace = [Log Connecting, Log (Checking 7 ''m''), Log (Torrent_type MOVIE),
                 Log (Moving ''/dl/m.avi'' ''/films/m.avi''), Log Skipping_due_to_dry_run,
                 Log Torrent_is_finished, Log Removing_finished_torrents,
                 Log Skipping_due_to_dry_run, Log Done]\<rparr>)"
  by code_simp

theorem dry_run_frame_witness:
  "DRY_RUN (example_config\<lparr>DRY_RUN := True\<rparr>)
   \<and> main (example_config\<lparr>DRY_RUN := True\<rparr>) list_ops (Some [example_torrent])
        \<lparr>world = [''/dl/m.avi''], trace = []\<rparr>
      = (Inr 0,
         \<lparr>world = [''/dl/m.avi''],
          trace = [Log Connecting, Log (Checking 7 ''m''), Log (Torrent_type MOVIE),
                   Log (Moving ''/dl/m.avi'' ''/films/m.avi''), Log Skipping_due_to_dry_run,
                   Log Torrent_is_finished, Log Removing_finished_torrents,
                   Log Skipping_due_to_dry_run, Log Done]\<rparr>)
   \<and> fst (move_torrent_file (example_config\<lparr>DRY_RUN := True\<rparr>) list_ops ''m.avi'' ''/films''
            \<lparr>world = [], trace = []\<rparr>)"
proof -
  have h: "DRY_RUN (example_config\<lparr>DRY_RUN := True\<rparr>)" by simp
  from dry_run_frame [OF h, of list_ops "Some [example_torrent]" "\<lparr>world = [], trace = []\<rparr>" "[]"
      "''m.avi''" "''/films''"] example_dry_run h
  show ?thesis by blast
qed

subsection \<open>The matcher, element by element\<close>

lemma case_option_id: "(case m of None \<Rightarrow> None | Some g \<Rightarrow> Some g) = m"
  by (cases m) simp_all

lemma digit_atom: "atom_matches Digit = is_digit"
  by (rule ext) simp

lemma any_atom: "atom_matches AnyChar = (\<lambda>c. c \<noteq> CHR 0x0A)"
  by (rule ext) simp

lemma counts_lit:
  "counts (lit c) s = (case s of [] \<Rightarrow> [] | x # s' \<Rightarrow> if lower x = lower c then [1] else [])"
  by (cases s) (simp_all add: lit_def counts_def)

lemma match_lit:
  "match_here (lit c # its) s =
     (case s of [] \<Rightarrow> None | x # s' \<Rightarrow> if lower x = lower c then match_here its s' else None)"
  unfolding match_here.simps counts_lit
  by (cases s) (simp_all add: lit_def case_option_id split: option.splits)

lemma counts_digits_2:
  "counts (group_digits 2 2) s = (if 2 \<le> length (takeWhile is_digit s) then [2] else [])"
proof -
  have "[2..<Suc (min 2 n)] = (if 2 \<le> n then [2] else [])" for n :: nat
    by (auto simp: min_def eval_nat_numeral upt_conv_Cons simp del: upt_Suc)
  then show ?thesis
    by (simp add: group_digits_def counts_def digit_atom del: upt_Suc)
qed

lemma match_digits_2:
  "match_here (group_digits 2 2 # its) s =
     (if 2 \<le> length (takeWhile is_digit s)
      then map_option (\<lambda>groups. take 2 s # groups) (match_here its (drop 2 s)) else None)"
  unfolding match_here.simps counts_digits_2
  by (simp add: group_digits_def split: option.splits)

lemma counts_digits_1_2:
  "counts (group_digits 1 2) s =
     (let n = length (takeWhile is_digit s) in if n = 0 then [] else if n = 1 then [1] else [2, 1])"
proof -
  have "[1..<Suc (min 2 n)] = (if n = 0 then [] else if n = 1 then [1] else [1, 2])" for n :: nat
    by (auto simp: min_def eval_nat_numeral upt_conv_Cons simp del: upt_Suc)
  then show ?thesis
    by (simp add: group_digits_def counts_def digit_atom Let_def del: upt_Suc)
qed

lemma match_digits_1_2:
  "match_here (group_digits 1 2 # its) s =
     (let n = length (takeWhile is_digit s) in
      if n = 0 then None
      else if n = 1 then map_option (\<lambda>groups. take 1 s # groups) (match_here its (drop 1 s))
      else (case match_here its (drop 2 s) of
              Some groups \<Rightarrow> Some (take 2 s # groups)
            | None \<Rightarrow> map_option (\<lambda>groups. take 1 s # groups) (match_here its (drop 1 s))))"
  unfolding match_here.simps counts_digits_1_2 Let_def
  by (simp add: group_digits_def split: option.splits)

lemma match_group_any:
  "match_here [group_any] s = Some [takeWhile (\<lambda>c. c \<noteq> CHR 0x0A) s]"
proof -
  let ?P = "\<lambda>c. c \<noteq> CHR 0x0A"
  have "take (length (takeWhile ?P s)) s = takeWhile ?P s"
    by (metis takeWhile_eq_take)
  then show ?thesis
    by (simp add: group_any_def counts_def any_atom Let_def)
qed

lemma first_success_None: "first_success f ns = None \<longleftrightarrow> (\<forall>n \<in> set ns. f n = None)"
  by (induction ns) (auto split: option.splits)

lemma first_success_upt:
  "first_success f [i..<j] = Some r \<Longrightarrow>
     \<exists>n. i \<le> n \<and> n < j \<and> f n = Some r \<and> (\<forall>k. i \<le> k \<and> k < n \<longrightarrow> f k = None)"
proof (induction "j - i" arbitrary: i)
  case 0
  then show ?case by simp
next
  case (Suc d)
  then have lt: "i < j" by simp
  then have u: "[i..<j] = i # [Suc i..<j]" by (simp add: upt_conv_Cons)
  show ?case
  proof (cases "f i")
    case (Some a)
    with Suc.prems u have "a = r" by simp
    with Some lt show ?thesis by auto
  next
    case None
    with Suc.prems u have "first_success f [Suc i..<j] = Some r" by simp
    moreover from Suc.hyps have "d = j - Suc i" by simp
    ultimately obtain n where n: "Suc i \<le> n" "n < j" "f n = Some r"
      "\<forall>k. Suc i \<le> k \<and> k < n \<longrightarrow> f k = None"
      using Suc.hyps(1) by blast
    have "f k = None" if "i \<le> k \<and> k < n" for k
      using that n(4) None by (cases "k = i") auto
    with n show ?thesis by (metis Suc_leD)
  qed
qed

lemma counts_lazy:
  "counts group_lazy_any s = [0..<Suc (length (takeWhile (\<lambda>c. c \<noteq> CHR 0x0A) s))]"
  by (simp add: group_lazy_any_def counts_def any_atom Let_def del: upt_Suc)

lemma match_lazy_None:
  "match_here (group_lazy_any # its) s = None \<longleftrightarrow>
     (\<forall>n \<le> length (takeWhile (\<lambda>c. c \<noteq> CHR 0x0A) s). match_here its (drop n s) = None)"
  unfolding match_here.simps counts_lazy first_success_None
  by (auto simp: less_Suc_eq_le split: option.splits simp del: upt_Suc)

lemma match_lazy_Some:
  assumes "match_here (group_lazy_any # its) s = Some r"
  shows "\<exists>n groups. n \<le> length s \<and> match_here its (drop n s) = Some groups \<and> r = take n s # groups
           \<and> (\<forall>k<n. match_here its (drop k s) = None)"
proof -
  let ?f = "\<lambda>n. case match_here its (drop n s) of None \<Rightarrow> None
                | Some groups \<Rightarrow> Some (if capture group_lazy_any then take n s # groups else groups)"
  let ?a = "length (takeWhile (\<lambda>c. c \<noteq> CHR 0x0A) s)"
  from assms have "first_success ?f [0..<Suc ?a] = Some r"
    unfolding match_here.simps counts_lazy .
  from first_success_upt [OF this] obtain n where
    n: "n < Suc ?a" "?f n = Some r" "\<forall>k. k < n \<longrightarrow> ?f k = None" by auto
  have "?a \<le> length s" by (rule length_takeWhile_le)
  with n(1) have "n \<le> length s" by simp
  moreover from n(2) obtain groups where "match_here its (drop n s) = Some groups" "r = take n s # groups"
    by (auto simp: group_lazy_any_def split: option.splits)
  moreover from n(3) have "\<forall>k<n. match_here its (drop k s) = None"
    by (auto split: option.splits)
  ultimately show ?thesis by blast
qed

lemma search_None: "search p s = None \<longleftrightarrow> (\<forall>i \<le> length s. match_here p (drop i s) = None)"
proof (induction s)
  case Nil
  then show ?case by simp
next
  case (Cons c s)
  have "(\<forall>i \<le> length (c # s). match_here p (drop i (c # s)) = None) \<longleftrightarrow>
        match_here p (c # s) = None \<and> (\<forall>i \<le> length s. match_here p (drop i s) = None)"
    (is "?L \<longleftrightarrow> ?R")
  proof
    assume l: ?L
    then have "match_here p (drop 0 (c # s)) = None" by blast
    moreover have "match_here p (drop i s) = None" if "i \<le> length s" for i
      using l that by (metis Suc_le_mono drop_Suc_Cons length_Cons)
    ultimately show ?R by simp
  next
    assume r: ?R
    show ?L
    proof (intro allI impI)
      fix i assume "i \<le> length (c # s)"
      with r show "match_here p (drop i (c # s)) = None" by (cases i) auto
    qed
  qed
  with Cons show ?case by (auto split: option.splits)
qed

lemma search_Some:
  "search p s = Some r \<Longrightarrow>
     \<exists>i \<le> length s. match_here p (drop i s) = Some r \<and> (\<forall>j<i. match_here p (drop j s) = None)"
proof (induction s)
  case Nil
  then show ?case by simp
next
  case (Cons c s)
  show ?case
  proof (cases "match_here p (c # s)")
    case (Some a)
    with Cons.prems have "a = r" by simp
    with Some have "match_here p (drop 0 (c # s)) = Some r \<and> (\<forall>j<0. match_here p (drop j (c # s)) = None)"
      by simp
    then show ?thesis by blast
  next
    case None
    with Cons.prems have "search p s = Some r" by simp
    from Cons.IH [OF this] obtain i where
      i: "i \<le> length s" "match_here p (drop i s) = Some r" "\<forall>j<i. match_here p (drop j s) = None"
      by blast
    have "match_here p (drop j (c # s)) = None" if "j < Suc i" for j
      using that i(3) None by (cases j) auto
    with i(1,2) have "Suc i \<le> length (c # s) \<and> match_here p (drop (Suc i) (c # s)) = Some r
        \<and> (\<forall>j<Suc i. match_here p (drop j (c # s)) = None)" by simp
    then show ?thesis by blast
  qed
qed

text \<open>A pattern that starts with \<^verbatim>\<open>(.*?)\<close>: the rest of it decides, at its leftmost match.\<close>

lemma search_lazy_None:
  "search (group_lazy_any # its) s = None \<longleftrightarrow> (\<forall>k \<le> length s. match_here its (drop k s) = None)"
proof
  assume n: "search (group_lazy_any # its) s = None"
  show "\<forall>k \<le> length s. match_here its (drop k s) = None"
  proof (intro allI impI)
    fix k assume "k \<le> length s"
    with n have "match_here (group_lazy_any # its) (drop k s) = None"
      unfolding search_None by blast
    then have "match_here its (drop 0 (drop k s)) = None"
      unfolding match_lazy_None by blast
    then show "match_here its (drop k s) = None" by simp
  qed
next
  assume a: "\<forall>k \<le> length s. match_here its (drop k s) = None"
  have "match_here its (drop n (drop i s)) = None" for i n
  proof (cases "n + i \<le> length s")
    case True
    with a show ?thesis by simp
  next
    case False
    then have d: "drop n (drop i s) = drop (length s) s" by simp
    from a have "match_here its (drop (length s) s) = None" by blast
    with d show ?thesis by simp
  qed
  then show "search (group_lazy_any # its) s = None"
    unfolding search_None match_lazy_None by blast
qed

lemma search_lazy_Some:
  assumes "search (group_lazy_any # its) s = Some r"
  shows "\<exists>k first groups. k \<le> length s \<and> match_here its (drop k s) = Some groups \<and> r = first # groups
           \<and> (\<forall>j<k. match_here its (drop j s) = None)"
proof -
  from search_Some [OF assms] obtain i where
    i: "i \<le> length s" "match_here (group_lazy_any # its) (drop i s) = Some r"
       "\<forall>j<i. match_here (group_lazy_any # its) (drop j s) = None" by blast
  from match_lazy_Some [OF i(2)] obtain n groups where
    n: "n \<le> length (drop i s)" "match_here its (drop n (drop i s)) = Some groups"
       "r = take n (drop i s) # groups" "\<forall>k<n. match_here its (drop k (drop i s)) = None" by blast
  have "match_here its (drop j s) = None" if "j < i + n" for j
  proof (cases "j < i")
    case True
    with i(3) have "match_here (group_lazy_any # its) (drop j s) = None" by simp
    then have "match_here its (drop 0 (drop j s)) = None" unfolding match_lazy_None by blast
    then show ?thesis by simp
  next
    case False
    with that have "j - i < n" by simp
    with n(4) have "match_here its (drop (j - i) (drop i s)) = None" by simp
    with False show ?thesis by simp
  qed
  moreover from n(2) have "match_here its (drop (i + n) s) = Some groups" by (simp add: add.commute)
  moreover from i(1) n(1) have "i + n \<le> length s" by simp
  ultimately show ?thesis using n(3) by blast
qed

subsection \<open>The pattern \<^verbatim>\<open>SxxEyy\<close>\<close>

lemma lower_S: "lower (CHR ''S'') = CHR ''s''" and lower_E: "lower (CHR ''E'') = CHR ''e''"
  by (simp_all add: lower_def)

lemma digit_cases:
  "is_digit c \<longleftrightarrow> c = CHR ''0'' \<or> c = CHR ''1'' \<or> c = CHR ''2'' \<or> c = CHR ''3'' \<or> c = CHR ''4''
     \<or> c = CHR ''5'' \<or> c = CHR ''6'' \<or> c = CHR ''7'' \<or> c = CHR ''8'' \<or> c = CHR ''9''"
  by (auto simp: is_digit_def)

lemma digit_not_e: "is_digit c \<Longrightarrow> lower c \<noteq> CHR ''e''"
  by (auto simp: digit_cases lower_def)

lemma match_core:
  "match_here [lit (CHR ''S''), group_digits 1 2, lit (CHR ''E''), group_digits 2 2, group_any] s
     = marker_groups s"
proof (cases s)
  case Nil
  then show ?thesis by (simp only: match_lit marker_groups_def) simp
next
  case (Cons c r)
  let ?rest = "[lit (CHR ''E''), group_digits 2 2, group_any]"
  have tail: "match_here ?rest t =
      (case t of [] \<Rightarrow> None
       | e # t' \<Rightarrow> if lower e = CHR ''e'' \<and> 2 \<le> length (takeWhile is_digit t')
                   then Some [take 2 t', takeWhile (\<lambda>c. c \<noteq> CHR 0x0A) (drop 2 t')] else None)" for t
    by (simp only: match_lit match_digits_2 match_group_any lower_E) (simp split: list.splits)
  have digit_head: "match_here ?rest (x # t) = None" if "is_digit x" for x t
    using that by (simp only: tail) (simp add: digit_not_e)
  show ?thesis
  proof (cases "lower c = CHR ''s''")
    case False
    with Cons show ?thesis by (simp only: match_lit marker_groups_def lower_S) (simp add: Let_def)
  next
    case True
    have "match_here (group_digits 1 2 # ?rest) r =
      (let sd = takeWhile is_digit r; t = dropWhile is_digit r in
       if length sd = 1 \<or> length sd = 2 then
         (case t of [] \<Rightarrow> None
          | e # t' \<Rightarrow> if lower e = CHR ''e'' \<and> 2 \<le> length (takeWhile is_digit t')
                      then Some [sd, take 2 t', takeWhile (\<lambda>c. c \<noteq> CHR 0x0A) (drop 2 t')] else None)
       else None)"
    proof (cases r)
      case Nil
      then show ?thesis by (simp only: match_digits_1_2) simp
    next
      case r1: (Cons x r1)
      show ?thesis
      proof (cases "is_digit x")
        case False
        with r1 show ?thesis by (simp only: match_digits_1_2) simp
      next
        case dx: True
        show ?thesis
        proof (cases r1)
          case Nil
          with r1 dx show ?thesis by (simp only: match_digits_1_2 tail) simp
        next
          case r2: (Cons y r2)
          show ?thesis
          proof (cases "is_digit y")
            case False
            with r1 r2 dx show ?thesis
              by (simp only: match_digits_1_2 tail) (simp split: list.splits)
          next
            case dy: True
            have fallback: "match_here ?rest (drop 1 r) = None"
              using r1 r2 dy by (simp add: digit_head del: match_here.simps)
            show ?thesis
            proof (cases r2)
              case Nil
              with r1 r2 dx dy show ?thesis
                by (simp only: match_digits_1_2 tail) simp
            next
              case r3: (Cons z r3)
              show ?thesis
              proof (cases "is_digit z")
                case True
                with r1 r2 r3 dx dy fallback show ?thesis
                  by (simp only: match_digits_1_2 Let_def) (simp add: digit_head del: match_here.simps)
              next
                case False
                with r1 r2 r3 dx dy fallback show ?thesis
                  by (simp only: match_digits_1_2 Let_def) (simp add: tail del: match_here.simps)
              qed
            qed
          qed
        qed
      qed
    qed
    with Cons True show ?thesis
      by (simp only: match_lit marker_groups_def lower_S) (simp add: Let_def)
  qed
qed

lemma marker_groups_Some:
  assumes "marker_groups s = Some groups"
  shows "\<exists>sd ed rest. groups = [sd, ed, rest] \<and> (length sd = 1 \<or> length sd = 2)
           \<and> list_all is_digit sd \<and> length ed = 2 \<and> list_all is_digit ed"
proof -
  from assms obtain c r where s: "s = c # r" by (cases s) (auto simp: marker_groups_def)
  let ?sd = "takeWhile is_digit r"
  from assms s obtain e t' where
    t: "dropWhile is_digit r = e # t'" and
    len: "length ?sd = 1 \<or> length ?sd = 2" and
    two: "2 \<le> length (takeWhile is_digit t')" and
    g: "groups = [?sd, take 2 t', takeWhile (\<lambda>c. c \<noteq> CHR 0x0A) (drop 2 t')]"
    by (auto simp: marker_groups_def Let_def split: list.splits if_splits)
  have "list_all is_digit ?sd"
    unfolding list_all_iff using set_takeWhileD by fast
  moreover have tk: "take 2 t' = take 2 (takeWhile is_digit t')"
  proof -
    have "takeWhile is_digit t' = take (length (takeWhile is_digit t')) t'"
      by (rule takeWhile_eq_take)
    then have "take 2 (takeWhile is_digit t') = take (min 2 (length (takeWhile is_digit t'))) t'"
      by (metis take_take)
    with two show ?thesis by (simp add: min_def)
  qed
  have "length (take 2 t') = 2"
    unfolding tk using two by simp
  moreover have "list_all is_digit (take 2 t')"
    unfolding tk list_all_iff
  proof
    fix c assume "c \<in> set (take 2 (takeWhile is_digit t'))"
    then have "c \<in> set (takeWhile is_digit t')" by (rule in_set_takeD)
    then show "is_digit c" by (rule set_takeWhileD [THEN conjunct2])
  qed
  ultimately show ?thesis using len g by blast
qed

lemma marker_groups_here:
  assumes "lower s = CHR ''s''" and "lower e = CHR ''e''"
    and "length sd = 1 \<or> length sd = 2" and "list_all is_digit sd"
    and "length ed = 2" and "list_all is_digit ed"
  shows "marker_groups (s # sd @ e # ed @ post)
           = Some [sd, ed, takeWhile (\<lambda>c. c \<noteq> CHR 0x0A) post]"
proof -
  from assms(2) have ne: "\<not> is_digit e" using digit_not_e by blast
  from assms(4) have sd: "\<forall>c \<in> set sd. is_digit c" by (simp add: list_all_iff)
  from assms(6) have ed: "\<forall>c \<in> set ed. is_digit c" by (simp add: list_all_iff)
  from sd ne have tw: "takeWhile is_digit (sd @ e # ed @ post) = sd"
    by (simp add: takeWhile_append2)
  from sd ne have dw: "dropWhile is_digit (sd @ e # ed @ post) = e # ed @ post"
    by (simp add: dropWhile_append2)
  from ed have "takeWhile is_digit (ed @ post) = ed @ takeWhile is_digit post"
    by (simp add: takeWhile_append2)
  with assms(5) have two: "2 \<le> length (takeWhile is_digit (ed @ post))" by simp
  from assms(1,2,3,5) two show ?thesis
    by (simp add: marker_groups_def tw dw Let_def)
qed

lemma pattern_SxxEyy_split:
  "pattern_SxxEyy = group_lazy_any #
     [lit (CHR ''S''), group_digits 1 2, lit (CHR ''E''), group_digits 2 2, group_any]"
  by (simp add: pattern_SxxEyy_def)

text \<open>The first pattern matches exactly the names with a marker, at the leftmost one.\<close>

lemma search_SxxEyy_None:
  "search pattern_SxxEyy b = None \<longleftrightarrow> (\<forall>k \<le> length b. marker_groups (drop k b) = None)"
  unfolding pattern_SxxEyy_split search_lazy_None match_core ..

lemma search_SxxEyy_Some:
  assumes "search pattern_SxxEyy b = Some groups"
  shows "\<exists>k first sd ed rest. k \<le> length b \<and> groups = [first, sd, ed, rest]
           \<and> marker_groups (drop k b) = Some [sd, ed, rest]
           \<and> (\<forall>j<k. marker_groups (drop j b) = None)"
proof -
  from search_lazy_Some [OF assms [unfolded pattern_SxxEyy_split]] obtain k first g where
    k: "k \<le> length b" "marker_groups (drop k b) = Some g" "groups = first # g"
       "\<forall>j<k. marker_groups (drop j b) = None"
    unfolding match_core by blast
  from marker_groups_Some [OF k(2)] obtain sd ed rest where "g = [sd, ed, rest]" by blast
  with k show ?thesis by blast
qed

subsection \<open>Two-digit numbers\<close>

lemma digit_value_char: "is_digit c \<Longrightarrow> digit_value c < 10 \<and> digit_char (digit_value c) = c"
  by (auto simp: digit_cases digit_value_def digit_char_def)

lemma digit_char_digit: "n < 10 \<Longrightarrow> is_digit (digit_char n)"
proof -
  assume "n < 10"
  then have "n \<in> {0, 1, 2, 3, 4, 5, 6, 7, 8, 9}" by auto
  then show ?thesis by (auto simp: digit_char_def is_digit_def)
qed

lemma decimal_one: "n < 10 \<Longrightarrow> decimal n = [digit_char n]"
  by (subst decimal.simps) simp

lemma decimal_two:
  "10 \<le> n \<Longrightarrow> n < 100 \<Longrightarrow> decimal n = [digit_char (n div 10), digit_char (n mod 10)]"
  by (subst decimal.simps) (simp add: decimal_one)

lemma format_one_digit: "is_digit c \<Longrightarrow> format_02d (int_of_digits [c]) = [CHR ''0'', c]"
  using digit_value_char [of c]
  by (simp add: format_02d_def int_of_digits_def decimal_one)

lemma format_two_digits:
  assumes "is_digit c" and "is_digit d"
  shows "format_02d (int_of_digits [c, d]) = [c, d]"
proof -
  let ?a = "digit_value c" and ?b = "digit_value d"
  from assms digit_value_char have a: "?a < 10" "digit_char ?a = c"
    and b: "?b < 10" "digit_char ?b = d" by blast+
  have n: "int_of_digits [c, d] = 10 * ?a + ?b" by (simp add: int_of_digits_def)
  show ?thesis
  proof (cases "?a = 0")
    case True
    with a(2) have "c = CHR ''0''" by (simp add: digit_char_def)
    with True b n show ?thesis by (simp add: format_02d_def decimal_one)
  next
    case False
    with a(1) b(1) have "10 \<le> 10 * ?a + ?b" "10 * ?a + ?b < 100" by simp_all
    moreover from b(1) have "(10 * ?a + ?b) div 10 = ?a" "(10 * ?a + ?b) mod 10 = ?b" by simp_all
    ultimately have "decimal (10 * ?a + ?b) = [c, d]" using a(2) b(2) by (simp add: decimal_two)
    with n show ?thesis by (simp add: format_02d_def)
  qed
qed

lemma format_digits:
  assumes "length ds = 1 \<or> length ds = 2" and "list_all is_digit ds"
  shows "format_02d (int_of_digits ds) = zero_pad2 ds \<and> length (zero_pad2 ds) = 2
         \<and> list_all is_digit (zero_pad2 ds)"
proof -
  have zero: "is_digit (CHR ''0'')" by (simp add: is_digit_def)
  from assms(1) consider c where "ds = [c]" | c d where "ds = [c, d]"
    by (cases ds; cases "tl ds"; cases "tl (tl ds)") auto
  then show ?thesis
  proof cases
    case 1
    with assms(2) zero show ?thesis by (simp add: format_one_digit zero_pad2_def)
  next
    case 2
    with assms(2) show ?thesis by (simp add: format_two_digits zero_pad2_def)
  qed
qed

subsection \<open>\<^verbatim>\<open>get_episode_data\<close>\<close>

lemma first_success_Some: "first_success f ns = Some r \<Longrightarrow> \<exists>n \<in> set ns. f n = Some r"
  by (induction ns) (auto split: option.splits)

text \<open>A match has one group for each capturing element, so four for each of the patterns.\<close>

lemma match_here_groups:
  "match_here its s = Some groups \<Longrightarrow> length groups = length (filter capture its)"
proof (induction its arbitrary: s groups)
  case Nil
  then show ?case by simp
next
  case (Cons it its)
  from Cons.prems have "\<exists>n g. match_here its (drop n s) = Some g
      \<and> groups = (if capture it then take n s # g else g)"
    by (fastforce dest!: first_success_Some split: option.splits)
  then obtain n g where "match_here its (drop n s) = Some g"
    "groups = (if capture it then take n s # g else g)" by blast
  with Cons.IH [of "drop n s" g] show ?case by simp
qed

lemma search_groups:
  "search p s = Some groups \<Longrightarrow> length groups = length (filter capture p)"
  using search_Some match_here_groups by blast

lemma series_patterns_groups:
  assumes "pattern \<in> set SERIES_PATTERNS" and "search pattern s = Some groups"
  shows "length groups = 4"
proof -
  from assms(1) have "length (filter capture pattern) = 4"
    by (auto simp: SERIES_PATTERNS_def pattern_SxxEyy_def pattern_NxNN_def
          pattern_Season_Episode_def lit_def opt_lit_def opt_any_def lazy_any_def
          group_lazy_any_def group_any_def group_digits_def)
  with search_groups [OF assms(2)] show ?thesis by simp
qed

lemma episode_of_patterns_Some:
  "episode_of_patterns cfg ps fn = Some ep \<Longrightarrow>
     \<exists>pattern groups. pattern \<in> set ps \<and> search pattern (basename fn) = Some groups
       \<and> ep = \<lparr>series_name = strip (STRIP_CHARS cfg) (groups ! 0),
                season_num = format_02d (int_of_digits (groups ! 1)),
                episode_num = format_02d (int_of_digits (groups ! 2)),
                filename = fn\<rparr>"
proof (induction ps)
  case Nil
  then show ?case by simp
next
  case (Cons p ps)
  show ?case
  proof (cases "search p (basename fn)")
    case None
    with Cons.prems have "episode_of_patterns cfg ps fn = Some ep" by simp
    from Cons.IH [OF this] show ?thesis by auto
  next
    case (Some groups)
    with Cons.prems have "ep = \<lparr>series_name = strip (STRIP_CHARS cfg) (groups ! 0),
                season_num = format_02d (int_of_digits (groups ! 1)),
                episode_num = format_02d (int_of_digits (groups ! 2)),
                filename = fn\<rparr>" by simp
    with Some show ?thesis by auto
  qed
qed

lemma get_episode_data_SxxEyy:
  "search pattern_SxxEyy (basename fn) = Some groups \<Longrightarrow>
     get_episode_data cfg fn =
       Some \<lparr>series_name = strip (STRIP_CHARS cfg) (groups ! 0),
             season_num = format_02d (int_of_digits (groups ! 1)),
             episode_num = format_02d (int_of_digits (groups ! 2)),
             filename = fn\<rparr>"
  by (simp add: get_episode_data_def SERIES_PATTERNS_def)

subsection \<open>\<^verbatim>\<open>str.strip\<close>\<close>

lemma lstrip_nil: "lstrip chars [] = []"
  by (simp add: lstrip_def)

lemma lstrip_head: "lstrip chars s \<noteq> [] \<Longrightarrow> hd (lstrip chars s) \<notin> set chars"
  unfolding lstrip_def using hd_dropWhile by metis

lemma lstrip_id: "s = [] \<or> hd s \<notin> set chars \<Longrightarrow> lstrip chars s = s"
  by (cases s) (auto simp: lstrip_def)

lemma lstrip_empty: "lstrip chars s = [] \<longleftrightarrow> set s \<subseteq> set chars"
  by (auto simp: lstrip_def dropWhile_eq_Nil_conv)

lemma lstrip_last: "lstrip chars s \<noteq> [] \<Longrightarrow> last (lstrip chars s) = last s"
  unfolding lstrip_def
  by (metis append_Nil2 last_appendR takeWhile_dropWhile_id)

lemma strip_empty: "strip chars s = [] \<longleftrightarrow> set s \<subseteq> set chars"
proof -
  have "set (lstrip chars s) \<subseteq> set s"
    unfolding lstrip_def by (meson set_dropWhileD subsetI)
  moreover have "lstrip chars s = [] \<or> hd (lstrip chars s) \<notin> set chars"
    using lstrip_head by blast
  then have "set (lstrip chars s) \<subseteq> set chars \<longleftrightarrow> lstrip chars s = []"
    by (cases "lstrip chars s") auto
  ultimately show ?thesis
    by (auto simp: strip_def lstrip_empty [of chars "rev (lstrip chars s)"] lstrip_empty [of chars s])
qed

lemma strip_ends:
  assumes "strip chars s \<noteq> []"
  shows "hd (strip chars s) \<notin> set chars \<and> last (strip chars s) \<notin> set chars"
proof -
  let ?l = "lstrip chars s" and ?r = "lstrip chars (rev (lstrip chars s))"
  from assms have r: "?r \<noteq> []" by (simp add: strip_def)
  have l: "?l \<noteq> []"
  proof
    assume "?l = []"
    then have "?r = []" by (simp add: lstrip_nil)
    with r show False by simp
  qed
  from lstrip_head [OF r] have "last (strip chars s) \<notin> set chars"
    using r by (simp add: strip_def last_rev)
  moreover from lstrip_last [OF r] l have "last ?r = hd ?l"
    by (simp add: last_rev)
  with lstrip_head [OF l] r have "hd (strip chars s) \<notin> set chars"
    by (simp add: strip_def hd_rev)
  ultimately show ?thesis by simp
qed

lemma strip_idem: "strip chars (strip chars s) = strip chars s"
proof (cases "strip chars s = []")
  case True
  have "strip chars [] = []" by (simp add: strip_def lstrip_nil)
  with True show ?thesis by simp
next
  case False
  let ?t = "strip chars s"
  from strip_ends [OF False] have h: "hd ?t \<notin> set chars" and l: "last ?t \<notin> set chars" by simp_all
  from h have a: "lstrip chars ?t = ?t" by (simp add: lstrip_id)
  from False l have "hd (rev ?t) \<notin> set chars" by (simp add: hd_rev)
  then have "lstrip chars (rev ?t) = rev ?t" by (simp add: lstrip_id)
  with a show ?thesis by (simp add: strip_def [of chars ?t])
qed

subsection \<open>Season, episode and show name of a match\<close>

text \<open>
  Claim C3, as the specification states it: a marker whose episode number has one digit is
  matched. No pattern matches \<^verbatim>\<open>Show.S3E7.mkv\<close>: the first wants two digits after the E, the
  second an x before two digits, the third the word Season.
\<close>

theorem SxxEyy_match_counterexample:
  "get_episode_data example_config ''Show.S3E7.mkv'' = None"
  by code_simp

text \<open>
  Claim C3, amended. If the base name contains the letter S, one or two digits, the letter E
  and two digits (letters in either case, more text before and after), the matcher succeeds
  and returns a season and an episode of two digits each. If no marker starts further left
  in the base name, they are the season digits padded with a zero to two places and the
  two episode digits.
\<close>

theorem SxxEyy_match:
  assumes "basename fn = pre @ s # sd @ e # ed @ post"
    and "lower s = CHR ''s''" and "lower e = CHR ''e''"
    and "length sd = 1 \<or> length sd = 2" and "list_all is_digit sd"
    and "length ed = 2" and "list_all is_digit ed"
  shows "\<exists>ep. get_episode_data cfg fn = Some ep
           \<and> filename ep = fn
           \<and> length (season_num ep) = 2 \<and> list_all is_digit (season_num ep)
           \<and> length (episode_num ep) = 2 \<and> list_all is_digit (episode_num ep)
           \<and> ((\<forall>k<length pre. marker_groups (drop k (basename fn)) = None) \<longrightarrow>
                 season_num ep = zero_pad2 sd \<and> episode_num ep = ed)"
proof -
  let ?b = "basename fn"
  let ?n = "length pre"
  have here: "marker_groups (drop ?n ?b) = Some [sd, ed, takeWhile (\<lambda>c. c \<noteq> CHR 0x0A) post]"
    using marker_groups_here [OF assms(2-7)] assms(1) by simp
  have n: "?n \<le> length ?b" using assms(1) by simp
  have "search pattern_SxxEyy ?b \<noteq> None"
  proof
    assume "search pattern_SxxEyy ?b = None"
    then have "marker_groups (drop ?n ?b) = None"
      unfolding search_SxxEyy_None using n by blast
    with here show False by simp
  qed
  then obtain groups where g: "search pattern_SxxEyy ?b = Some groups" by blast
  from search_SxxEyy_Some [OF g] obtain k first sd' ed' rest where
    k: "k \<le> length ?b" "groups = [first, sd', ed', rest]"
       "marker_groups (drop k ?b) = Some [sd', ed', rest]"
       "\<forall>j<k. marker_groups (drop j ?b) = None" by blast
  from marker_groups_Some [OF k(3)] have
    d: "length sd' = 1 \<or> length sd' = 2" "list_all is_digit sd'"
       "length ed' = 2" "list_all is_digit ed'" by simp_all
  let ?ep = "\<lparr>series_name = strip (STRIP_CHARS cfg) first,
              season_num = format_02d (int_of_digits sd'),
              episode_num = format_02d (int_of_digits ed'),
              filename = fn\<rparr>"
  from get_episode_data_SxxEyy [OF g, of cfg] k(2)
  have ep: "get_episode_data cfg fn = Some ?ep" by simp
  from format_digits [OF d(1,2)] have
    s1: "season_num ?ep = zero_pad2 sd'" "length (season_num ?ep) = 2"
        "list_all is_digit (season_num ?ep)" by simp_all
  from d(3) have z: "zero_pad2 ed' = ed'" by (simp add: zero_pad2_def)
  from format_digits [of ed'] d(3,4) z have
    e1: "episode_num ?ep = ed'" "length (episode_num ?ep) = 2"
        "list_all is_digit (episode_num ?ep)" by simp_all
  have pin: "season_num ?ep = zero_pad2 sd \<and> episode_num ?ep = ed"
    if left: "\<forall>j<?n. marker_groups (drop j ?b) = None"
  proof -
    from k(4) here have "\<not> ?n < k" by auto
    moreover from left k(3) have "\<not> k < ?n" by auto
    ultimately have "k = ?n" by simp
    with k(3) here have "sd' = sd" "ed' = ed" by simp_all
    with s1(1) e1(1) show ?thesis by simp
  qed
  from ep s1(2,3) e1(2,3) pin have
    "get_episode_data cfg fn = Some ?ep
           \<and> filename ?ep = fn
           \<and> length (season_num ?ep) = 2 \<and> list_all is_digit (season_num ?ep)
           \<and> length (episode_num ?ep) = 2 \<and> list_all is_digit (episode_num ?ep)
           \<and> ((\<forall>k<length pre. marker_groups (drop k (basename fn)) = None) \<longrightarrow>
                 season_num ?ep = zero_pad2 sd \<and> episode_num ?ep = ed)"
    by simp
  then show ?thesis by (rule exI)
qed

theorem SxxEyy_match_witness:
  "basename ''Show.S3E07.mkv'' = ''Show.'' @ CHR ''S'' # ''3'' @ CHR ''E'' # ''07'' @ ''.mkv''
   \<and> (\<exists>ep. get_episode_data example_config ''Show.S3E07.mkv'' = Some ep
          \<and> season_num ep = ''03'' \<and> episode_num ep = ''07'')"
proof -
  have b: "basename ''Show.S3E07.mkv'' = ''Show.'' @ CHR ''S'' # ''3'' @ CHR ''E'' # ''07'' @ ''.mkv''"
    by (simp add: basename_def)
  have l: "lower (CHR ''S'') = CHR ''s''" "lower (CHR ''E'') = CHR ''e''"
    by (simp_all add: lower_def)
  have d: "length ''3'' = 1 \<or> length ''3'' = 2" "list_all is_digit ''3''"
    "length ''07'' = 2" "list_all is_digit ''07''"
    by (simp_all add: is_digit_def)
  have left: "\<forall>k<length ''Show.''. marker_groups (drop k (basename ''Show.S3E07.mkv'')) = None"
    by (simp add: b All_less_Suc marker_groups_def lower_def is_digit_def)
  from SxxEyy_match [OF b l d, of example_config] left
  have "\<exists>ep. get_episode_data example_config ''Show.S3E07.mkv'' = Some ep
          \<and> season_num ep = zero_pad2 ''3'' \<and> episode_num ep = ''07''"
    by blast
  then have "\<exists>ep. get_episode_data example_config ''Show.S3E07.mkv'' = Some ep
          \<and> season_num ep = ''03'' \<and> episode_num ep = ''07''"
    by (simp add: zero_pad2_def)
  with b show ?thesis by blast
qed

text \<open>
  Claim C5, as the specification states it: the stripped show name of a match is never
  empty. The name \<^verbatim>\<open>S01E02.mkv\<close> starts with its marker, and its show name is empty.
\<close>

theorem show_name_counterexample:
  "get_episode_data example_config ''S01E02.mkv''
     = Some \<lparr>series_name = '''', season_num = ''01'', episode_num = ''02'',
             filename = ''S01E02.mkv''\<rparr>"
  by code_simp

text \<open>
  Claim C5, amended. The show name of a match is the first group of the pattern that
  matched, stripped: stripping it again changes nothing, it neither starts nor ends with a
  character of \<^verbatim>\<open>STRIP_CHARS\<close>, and it is empty exactly when every character of that group is
  one of \<^verbatim>\<open>STRIP_CHARS\<close>, as when the group is empty.
\<close>

theorem show_name_stripped:
  assumes "get_episode_data cfg fn = Some ep"
  shows "strip (STRIP_CHARS cfg) (series_name ep) = series_name ep
       \<and> (series_name ep = [] \<or>
            (hd (series_name ep) \<notin> set (STRIP_CHARS cfg)
             \<and> last (series_name ep) \<notin> set (STRIP_CHARS cfg)))
       \<and> (\<exists>pattern groups.
            pattern \<in> set SERIES_PATTERNS \<and> search pattern (basename fn) = Some groups
            \<and> length groups = 4
            \<and> series_name ep = strip (STRIP_CHARS cfg) (groups ! 0)
            \<and> (series_name ep = [] \<longleftrightarrow> set (groups ! 0) \<subseteq> set (STRIP_CHARS cfg)))"
proof -
  from assms obtain pattern groups where
    p: "pattern \<in> set SERIES_PATTERNS" "search pattern (basename fn) = Some groups" and
    s: "series_name ep = strip (STRIP_CHARS cfg) (groups ! 0)"
    unfolding get_episode_data_def by (auto dest!: episode_of_patterns_Some)
  from s have "strip (STRIP_CHARS cfg) (series_name ep) = series_name ep"
    by (simp add: strip_idem)
  moreover from s strip_ends [of "STRIP_CHARS cfg" "groups ! 0"]
  have "series_name ep = [] \<or>
            (hd (series_name ep) \<notin> set (STRIP_CHARS cfg)
             \<and> last (series_name ep) \<notin> set (STRIP_CHARS cfg))"
    by auto
  moreover from s have "series_name ep = [] \<longleftrightarrow> set (groups ! 0) \<subseteq> set (STRIP_CHARS cfg)"
    by (simp add: strip_empty)
  moreover note p s series_patterns_groups [OF p]
  ultimately show ?thesis by blast
qed

theorem show_name_stripped_witness:
  "get_episode_data example_config ''My Show - S01E02.mkv''
     = Some \<lparr>series_name = ''My Show'', season_num = ''01'', episode_num = ''02'',
             filename = ''My Show - S01E02.mkv''\<rparr>
   \<and> strip (STRIP_CHARS example_config) ''My Show'' = ''My Show''"
proof -
  have e: "get_episode_data example_config ''My Show - S01E02.mkv''
     = Some \<lparr>series_name = ''My Show'', season_num = ''01'', episode_num = ''02'',
             filename = ''My Show - S01E02.mkv''\<rparr>"
    by code_simp
  from show_name_stripped [OF e] e show ?thesis by simp
qed

subsection \<open>Jobs with a file that no pattern matches\<close>

text \<open>
  The loop of \<^verbatim>\<open>get_series_data\<close> on files that match with one show name, followed by a file
  that no pattern matches: it reaches that file and raises.
\<close>

lemma series_loop_unmatched:
  assumes "\<forall>x \<in> set xs. \<exists>ep. get_episode_data cfg (name x) = Some ep \<and> series_name ep = n"
    and "get_episode_data cfg (name v) = None"
    and "sname = None \<or> sname = Some n"
  shows "series_loop cfg (xs @ v # ys) sname ss = Inl TypeError"
  using assms(1,3)
proof (induction xs arbitrary: sname ss)
  case Nil
  with assms(2) show ?case by simp
next
  case (Cons x xs)
  from Cons.prems(1) obtain ep where
    ep: "get_episode_data cfg (name x) = Some ep" "series_name ep = n" by auto
  from Cons.prems(1) have rest:
    "\<forall>x \<in> set xs. \<exists>ep. get_episode_data cfg (name x) = Some ep \<and> series_name ep = n" by simp
  have next_name: "Some n = None \<or> Some n = Some n" by simp
  note ih = Cons.IH [OF rest next_name]
  from Cons.prems(2) show ?case
  proof
    assume "sname = None"
    with ep ih show ?thesis by simp
  next
    assume "sname = Some n"
    with ep ih show ?thesis by simp
  qed
qed

text \<open>
  Claim C1. The specification classifies a job of two or more video files as \<open>UNKNOWN\<close>
  when a file matches no pattern, once the sample heuristic has not made it a movie with
  sample. The code does not: when the heuristic returns \<open>False\<close> and the files before the
  first one that no pattern matches all match with one show name (there may be none),
  \<^verbatim>\<open>get_series_data\<close> subscripts the \<^verbatim>\<open>False\<close> that \<^verbatim>\<open>get_episode_data\<close> returned for that file,
  and the classifier raises \<open>TypeError\<close> instead of returning \<open>UNKNOWN\<close>.
\<close>

theorem unmatched_file_raises:
  assumes "2 \<le> length vfs" and "is_movie_with_sample vfs = Inr False"
    and "vfs = xs @ v # ys" and "get_episode_data cfg (name v) = None"
    and "\<forall>x \<in> set xs. \<exists>ep. get_episode_data cfg (name x) = Some ep \<and> series_name ep = n"
  shows "get_torrent_type cfg vfs = Inl TypeError"
proof -
  from assms(1) have n1: "length vfs \<noteq> 1" by simp
  have start: "(None :: string option) = None \<or> None = Some n" by simp
  from series_loop_unmatched [OF assms(5,4) start, of ys "[]"] assms(3)
  have "get_series_data cfg vfs = Inl TypeError"
    by (simp add: get_series_data_def)
  with n1 assms(2) show ?thesis by (simp add: get_torrent_type_def)
qed

text \<open>
  Two files that no pattern matches, of the sizes 100 and 150: the heuristic returns
  \<open>False\<close>, and the first file already makes the loop raise.
\<close>

theorem unmatched_file_raises_witness:
  "2 \<le> length [\<lparr>name = ''a.mkv'', size' = 100\<rparr>, \<lparr>name = ''b.mkv'', size' = 150\<rparr>]
   \<and> is_movie_with_sample [\<lparr>name = ''a.mkv'', size' = 100\<rparr>, \<lparr>name = ''b.mkv'', size' = 150\<rparr>]
       = Inr False
   \<and> get_episode_data example_config ''a.mkv'' = None
   \<and> get_torrent_type example_config
        [\<lparr>name = ''a.mkv'', size' = 100\<rparr>, \<lparr>name = ''b.mkv'', size' = 150\<rparr>]
      = Inl TypeError"
proof -
  let ?a = "\<lparr>name = ''a.mkv'', size' = 100\<rparr>" and ?b = "\<lparr>name = ''b.mkv'', size' = 150\<rparr>"
  have l: "2 \<le> length [?a, ?b]" by simp
  have s: "is_movie_with_sample [?a, ?b] = Inr False"
    by (simp add: is_movie_with_sample_pair magnitude_100_150 float_ge_def)
  have v: "[?a, ?b] = [] @ ?a # [?b]" by simp
  have u: "get_episode_data example_config ''a.mkv'' = None" by code_simp
  then have u': "get_episode_data example_config (name ?a) = None" by simp
  have before: "\<forall>x \<in> set ([] :: file_info list).
      \<exists>ep. get_episode_data example_config (name x) = Some ep \<and> series_name ep = []" by simp
  from unmatched_file_raises [OF l s v u' before] l s u show ?thesis by simp
qed

text \<open>
  The same after a file that matches: the loop takes the show name of the first file and
  raises at the second.
\<close>

lemma unmatched_second_file_raises:
  "get_torrent_type example_config
     [\<lparr>name = ''a.S1E01'', size' = 5\<rparr>, \<lparr>name = ''c'', size' = 5\<rparr>, \<lparr>name = ''a.S1E02'', size' = 5\<rparr>]
   = Inl TypeError"
proof -
  let ?vfs = "[\<lparr>name = ''a.S1E01'', size' = 5\<rparr>, \<lparr>name = ''c'', size' = 5\<rparr>,
               \<lparr>name = ''a.S1E02'', size' = 5\<rparr>]"
  have a: "get_episode_data example_config ''a.S1E01''
      = Some \<lparr>series_name = ''a'', season_num = ''01'', episode_num = ''01'',
              filename = ''a.S1E01''\<rparr>"
    by code_simp
  have c: "get_episode_data example_config ''c'' = None" by code_simp
  have s: "is_movie_with_sample ?vfs = Inr False" by (simp add: is_movie_with_sample_def)
  from a c s show ?thesis
    by (simp add: get_torrent_type_def get_series_data_def)
qed

end
